theory Spec2Isabelle
  imports Complex_Main "HOL-Library.Log_Nat"
begin

section \<open>Data model of the maze generator\<close>

text \<open>
  The four cell markers of \<^verbatim>\<open>textMaze.py\<close>: the wall, the open floor, the player
  and the door. A grid is a list of rows; a coordinate is a pair (row, column) of Python
  integers.
\<close>

datatype marker = Wall | Open | PlayerStart | ExitDoor

type_synonym coord = "int \<times> int"
type_synonym grid = "marker list list"
type_synonym frontier_entry = "int \<times> int \<times> coord"

text \<open>A Python float: a finite binary64 value, given by its exact rational value, an
  infinity, or a NaN.\<close>

datatype pyfloat = Finite rat | PosInf | NegInf | NaN

text \<open>The fields of a \<^verbatim>\<open>MazeGenerator\<close> object; \<open>path\<close> is the attribute \<^verbatim>\<open>_path\<close>.
  The difficulty is a Python float.\<close>

record generator =
  width :: int
  height :: int
  difficulty :: pyfloat
  maze :: grid
  start :: coord
  exit :: coord
  path :: "coord list"

subsection \<open>Python list indexing\<close>

text \<open>
  An index \<open>i\<close> into a list of length \<open>n\<close> is valid when \<open>-n \<le> i < n\<close>; a negative
  index counts from the end. Any other index raises IndexError, which is \<open>None\<close> here.
\<close>

definition py_index :: "nat \<Rightarrow> int \<Rightarrow> nat option" where
  "py_index n i =
     (if 0 \<le> i \<and> i < int n then Some (nat i)
      else if - int n \<le> i \<and> i < 0 then Some (nat (int n + i))
      else None)"

definition norm_coord :: "grid \<Rightarrow> coord \<Rightarrow> (nat \<times> nat) option" where
  "norm_coord m p =
     (case py_index (length m) (fst p) of
        None \<Rightarrow> None
      | Some i \<Rightarrow>
          (case py_index (length (m ! i)) (snd p) of
             None \<Rightarrow> None
           | Some j \<Rightarrow> Some (i, j)))"

text \<open>\<^verbatim>\<open>self.maze[x][y]\<close> as an expression.\<close>

definition cell :: "grid \<Rightarrow> coord \<Rightarrow> marker option" where
  "cell m p = (case norm_coord m p of None \<Rightarrow> None | Some (i, j) \<Rightarrow> Some (m ! i ! j))"

text \<open>\<^verbatim>\<open>self.maze[x][y] = v\<close> as a statement.\<close>

definition set_cell :: "grid \<Rightarrow> coord \<Rightarrow> marker \<Rightarrow> grid option" where
  "set_cell m p v =
     (case norm_coord m p of
        None \<Rightarrow> None
      | Some (i, j) \<Rightarrow> Some (m[i := (m ! i)[j := v]]))"

subsection \<open>Python floats\<close>

text \<open>The power \<open>2\<^sup>e\<close> for an integer exponent.\<close>

definition pow2 :: "int \<Rightarrow> rat" where
  "pow2 e = (if 0 \<le> e then 2 ^ nat e else 1 / 2 ^ nat (- e))"

text \<open>For \<open>r > 0\<close>, the exponent \<open>k\<close> with \<open>2\<^sup>k \<le> r < 2\<^sup>k\<^sup>+\<^sup>1\<close>, from the bit lengths of the
  numerator and the denominator.\<close>

definition floor_log2 :: "rat \<Rightarrow> int" where
  "floor_log2 r =
     (case quotient_of r of
        (a, b) \<Rightarrow> if pow2 (bitlen a - bitlen b) \<le> r then bitlen a - bitlen b
                  else bitlen a - bitlen b - 1)"

text \<open>Rounding to the nearest integer, a tie going to the even one.\<close>

definition round_half_even :: "rat \<Rightarrow> int" where
  "round_half_even r =
     (if r - of_int \<lfloor>r\<rfloor> < 1 / 2 then \<lfloor>r\<rfloor>
      else if 1 / 2 < r - of_int \<lfloor>r\<rfloor> then \<lfloor>r\<rfloor> + 1
      else if even \<lfloor>r\<rfloor> then \<lfloor>r\<rfloor> else \<lfloor>r\<rfloor> + 1)"

text \<open>The binary64 format has 53 significant bits and exponents from -1074 on: at the
  magnitude of \<open>r\<close> its values are the multiples of \<open>2\<close> to the power \<open>ulp_exponent r\<close>, and
  \<open>round53 r\<close> is the nearest of them, ties to even.\<close>

definition ulp_exponent :: "rat \<Rightarrow> int" where
  "ulp_exponent r = max (- 1074) (floor_log2 \<bar>r\<bar> - 52)"

definition round53 :: "rat \<Rightarrow> rat" where
  "round53 r =
     (if r = 0 then 0
      else of_int (round_half_even (r / pow2 (ulp_exponent r))) * pow2 (ulp_exponent r))"

text \<open>The result of a float operation whose exact value is \<open>r\<close>: the rounded value, or an
  infinity from \<open>2\<^sup>1\<^sup>0\<^sup>2\<^sup>4 - 2\<^sup>9\<^sup>7\<^sup>0\<close> on, the largest float plus half a unit in its last place
  (\<open>float_limit\<close>, written out as a numeral).\<close>

definition float_limit :: rat where
  "float_limit =
     179769313486231580793728971405303415079934132710037826936173778980444968292764750946649017977587207096330286416692887910946555547851940402630657488671505820681908902000708383676273854845817711531764475730270069855571366959622842914819860834936475292719074168444365510704342711559699508093042880177904174497792"

definition to_float :: "rat \<Rightarrow> pyfloat" where
  "to_float r =
     (if float_limit \<le> r then PosInf
      else if r \<le> - float_limit then NegInf
      else Finite (round53 r))"

text \<open>The float operand that \<^verbatim>\<open>len(xs) * d\<close> makes of the length. A Python list has at
  most \<open>2\<^sup>6\<^sup>3 - 1\<close> elements (\<^verbatim>\<open>sys.maxsize\<close>), which is where the \<open>min\<close> caps a longer
  list of the model, so the conversion rounds and never overflows.\<close>

definition float_of_len :: "nat \<Rightarrow> rat" where
  "float_of_len n = round53 (of_int (min (int n) (2 ^ 63 - 1)))"

text \<open>The product of a finite float \<open>a\<close> and a float.\<close>

fun float_mul :: "rat \<Rightarrow> pyfloat \<Rightarrow> pyfloat" where
  "float_mul a (Finite q) = to_float (a * q)"
| "float_mul a PosInf = (if a = 0 then NaN else if 0 < a then PosInf else NegInf)"
| "float_mul a NegInf = (if a = 0 then NaN else if 0 < a then NegInf else PosInf)"
| "float_mul a NaN = NaN"

text \<open>Python's \<^verbatim>\<open>int()\<close> of a float: truncation towards zero; it raises on an infinity
  (OverflowError) and on a NaN (ValueError), which is \<open>None\<close>.\<close>

fun py_int :: "pyfloat \<Rightarrow> int option" where
  "py_int (Finite r) = Some (if 0 \<le> r then \<lfloor>r\<rfloor> else \<lceil>r\<rceil>)"
| "py_int PosInf = None"
| "py_int NegInf = None"
| "py_int NaN = None"

text \<open>\<^verbatim>\<open>int(len(candidate_positions) * self.difficulty)\<close> for \<open>n\<close> candidates.\<close>

definition wall_count_of :: "nat \<Rightarrow> pyfloat \<Rightarrow> int option" where
  "wall_count_of n d = py_int (float_mul (float_of_len n) d)"

subsection \<open>The random source\<close>

text \<open>
  The random source is a tape of naturals, consumed from the left; an exhausted tape
  yields 0. \<open>draw n\<close> is a draw from \<open>{0..<n}\<close>, which is \<^verbatim>\<open>random.randint(0, n-1)\<close>.
  \<open>shuffle\<close> is \<^verbatim>\<open>random.shuffle\<close>: for \<open>i\<close> from the last index down to 1 it swaps
  position \<open>i\<close> with a drawn position \<open>j \<le> i\<close>.
\<close>

type_synonym rnd = "nat list"

fun draw :: "nat \<Rightarrow> rnd \<Rightarrow> nat \<times> rnd" where
  "draw n [] = (0, [])"
| "draw n (r # rs) = (r mod n, rs)"

fun shuffle_down :: "nat \<Rightarrow> 'a list \<Rightarrow> rnd \<Rightarrow> 'a list \<times> rnd" where
  "shuffle_down 0 xs rs = (xs, rs)"
| "shuffle_down (Suc i) xs rs =
     (case draw (Suc (Suc i)) rs of
        (j, rs') \<Rightarrow> shuffle_down i (xs[Suc i := xs ! j, j := xs ! Suc i]) rs')"

definition shuffle :: "'a list \<Rightarrow> rnd \<Rightarrow> 'a list \<times> rnd" where
  "shuffle xs rs = shuffle_down (length xs - 1) xs rs"

subsection \<open>Construction\<close>

definition init :: "int \<Rightarrow> int \<Rightarrow> pyfloat \<Rightarrow> generator" where
  "init w h d =
     \<lparr> width = w, height = h, difficulty = d,
       maze = replicate (nat h) (replicate (nat w) Wall),
       start = (1, 1), exit = (h - 2, w - 2), path = [] \<rparr>"

section \<open>The reachability check\<close>

text \<open>
  The inner loop of \<^verbatim>\<open>_validate_maze\<close>: the neighbours of \<open>(x, y)\<close>, in the order up,
  down, left, right, that lie inside the grid, are not walls and are not visited.
\<close>

definition directions :: "(int \<times> int) list" where
  "directions = [(-1, 0), (1, 0), (0, -1), (0, 1)]"

fun neighbours :: "generator \<Rightarrow> coord set \<Rightarrow> coord \<Rightarrow> (int \<times> int) list \<Rightarrow> coord list option" where
  "neighbours g visited (x, y) [] = Some []"
| "neighbours g visited (x, y) ((dx, dy) # ds) =
     (if 0 \<le> x + dx \<and> x + dx < height g \<and> 0 \<le> y + dy \<and> y + dy < width g then
        (case cell (maze g) (x + dx, y + dy) of
           None \<Rightarrow> None
         | Some c \<Rightarrow>
             (case neighbours g visited (x, y) ds of
                None \<Rightarrow> None
              | Some ns \<Rightarrow>
                  Some (if c \<noteq> Wall \<and> (x + dx, y + dy) \<notin> visited
                        then (x + dx, y + dy) # ns else ns)))
      else neighbours g visited (x, y) ds)"

text \<open>One iteration of the \<^verbatim>\<open>while queue\<close> loop: \<open>Inl b\<close> is \<^verbatim>\<open>return b\<close>, \<open>Inr\<close>
  carries the visited set and the queue into the next iteration.\<close>

definition bfs_step ::
  "generator \<Rightarrow> coord set \<Rightarrow> coord list \<Rightarrow> (bool + coord set \<times> coord list) option" where
  "bfs_step g visited queue =
     (case queue of
        [] \<Rightarrow> Some (Inl False)
      | p # q \<Rightarrow>
          if p = exit g then Some (Inl True)
          else if p \<in> visited then Some (Inr (visited, q))
          else
            (case neighbours g (insert p visited) p directions of
               None \<Rightarrow> None
             | Some ns \<Rightarrow> Some (Inr (insert p visited, q @ ns))))"

definition in_grid :: "generator \<Rightarrow> coord set" where
  "in_grid g = {0..<height g} \<times> {0..<width g}"

definition bfs_measure :: "generator \<times> coord set \<times> coord list \<Rightarrow> nat" where
  "bfs_measure = (\<lambda>(g, visited, queue). card ((in_grid g \<union> set queue) - visited))"

lemma neighbours_in_grid:
  "neighbours g V p ds = Some ns \<Longrightarrow> set ns \<subseteq> in_grid g"
proof (induction ds arbitrary: ns)
  case Nil
  then show ?case by (cases p) simp
next
  case (Cons d ds)
  obtain x y where p: "p = (x, y)" by (cases p)
  obtain dx dy where d: "d = (dx, dy)" by (cases d)
  show ?case
  proof (cases "neighbours g V p ds")
    case None
    with Cons.prems show ?thesis
      by (simp add: p d split: if_splits option.splits)
  next
    case (Some ms)
    then have "set ms \<subseteq> in_grid g" by (rule Cons.IH)
    with Cons.prems Some show ?thesis
      by (auto simp: p d in_grid_def split: if_splits option.splits)
  qed
qed

lemma finite_in_grid: "finite (in_grid g)"
  by (simp add: in_grid_def)

function bfs :: "generator \<Rightarrow> coord set \<Rightarrow> coord list \<Rightarrow> bool option" where
  "bfs g visited queue =
     (case bfs_step g visited queue of
        None \<Rightarrow> None
      | Some (Inl b) \<Rightarrow> Some b
      | Some (Inr (visited', queue')) \<Rightarrow> bfs g visited' queue')"
  by pat_completeness auto
termination
proof (relation "measures [bfs_measure, \<lambda>(g, visited, queue). length queue]", goal_cases)
  case 1
  then show ?case by simp
next
  case (2 g visited queue r s visited' queue')
  then have st: "bfs_step g visited queue = Some (Inr (visited', queue'))" by simp
  show ?case
  proof (cases queue)
    case Nil
    with st show ?thesis by (simp add: bfs_step_def)
  next
    case (Cons p q)
    show ?thesis
    proof (cases "p \<in> visited")
      case True
      with st Cons have "visited' = visited" "queue' = q"
        by (auto simp: bfs_step_def split: if_splits)
      then have "(in_grid g \<union> set queue') - visited' \<subseteq> (in_grid g \<union> set queue) - visited"
        using Cons by auto
      then have "bfs_measure (g, visited', queue') \<le> bfs_measure (g, visited, queue)"
        unfolding bfs_measure_def using finite_in_grid [of g]
        by (auto intro!: card_mono)
      moreover have "length queue' < length queue"
        using Cons \<open>queue' = q\<close> by simp
      ultimately show ?thesis by auto
    next
      case False
      with st Cons obtain ns where
        ns: "neighbours g (insert p visited) p directions = Some ns"
        and v: "visited' = insert p visited" and q: "queue' = q @ ns"
        by (auto simp: bfs_step_def split: if_splits option.splits)
      have "set ns \<subseteq> in_grid g" using ns by (rule neighbours_in_grid)
      then have "(in_grid g \<union> set queue') - visited'
                   \<subset> (in_grid g \<union> set queue) - visited"
        using Cons False v q by auto
      then have "bfs_measure (g, visited', queue') < bfs_measure (g, visited, queue)"
        unfolding bfs_measure_def using finite_in_grid [of g]
        by (auto intro!: psubset_card_mono)
      then show ?thesis by auto
    qed
  qed
qed

declare bfs.simps [simp del]

definition validate_maze :: "generator \<Rightarrow> bool option" where
  "validate_maze g = bfs g {} [start g]"

section \<open>The generator\<close>

subsection \<open>Base carving\<close>

text \<open>The test \<^verbatim>\<open>0 < nx < self.height-1 and 0 < ny < self.width-1\<close>.\<close>

definition interior :: "generator \<Rightarrow> coord \<Rightarrow> bool" where
  "interior g p \<longleftrightarrow> 0 < fst p \<and> fst p < height g - 1 \<and> 0 < snd p \<and> snd p < width g - 1"

text \<open>The initial frontier: the cells two steps from the start that pass the test, each
  with the start as its parent.\<close>

definition seed_frontier :: "generator \<Rightarrow> frontier_entry list" where
  "seed_frontier g =
     map (\<lambda>(dx, dy). (fst (start g) + dx * 2, snd (start g) + dy * 2, start g))
       (filter (\<lambda>(dx, dy). interior g (fst (start g) + dx * 2, snd (start g) + dy * 2))
          directions)"

definition jumps :: "(int \<times> int) list" where
  "jumps = [(-2, 0), (2, 0), (0, -2), (0, 2)]"

text \<open>The new frontier entries of a carved cell \<open>(x, y)\<close>: its neighbours two steps away
  that pass the test and are still walls.\<close>

fun expand :: "generator \<Rightarrow> coord \<Rightarrow> (int \<times> int) list \<Rightarrow> frontier_entry list option" where
  "expand g (x, y) [] = Some []"
| "expand g (x, y) ((dx, dy) # ds) =
     (if interior g (x + dx, y + dy) then
        (case cell (maze g) (x + dx, y + dy) of
           None \<Rightarrow> None
         | Some c \<Rightarrow>
             (case expand g (x, y) ds of
                None \<Rightarrow> None
              | Some es \<Rightarrow> Some (if c = Wall then (x + dx, y + dy, (x, y)) # es else es)))
      else expand g (x, y) ds)"

text \<open>One iteration of the \<^verbatim>\<open>while frontier\<close> loop, for a non-empty frontier: pop the
  entry at a drawn index; if its cell is still a wall, open the cell between it and its
  parent, open the cell, record it in the path and extend the frontier.\<close>

definition carve_step ::
  "generator \<Rightarrow> frontier_entry list \<Rightarrow> rnd \<Rightarrow> (generator \<times> frontier_entry list \<times> rnd) option" where
  "carve_step g frontier rs =
     (case draw (length frontier) rs of
        (k, rs') \<Rightarrow>
          (case frontier ! k of
             (x, y, parent) \<Rightarrow>
               (case cell (maze g) (x, y) of
                  None \<Rightarrow> None
                | Some c \<Rightarrow>
                    if c = Wall then
                      (case set_cell (maze g)
                              ((x + fst parent) div 2, (y + snd parent) div 2) Open of
                         None \<Rightarrow> None
                       | Some m1 \<Rightarrow>
                           (case set_cell m1 (x, y) Open of
                              None \<Rightarrow> None
                            | Some m2 \<Rightarrow>
                                (case expand (g\<lparr>maze := m2, path := path g @ [(x, y)]\<rparr>)
                                        (x, y) jumps of
                                   None \<Rightarrow> None
                                 | Some es \<Rightarrow>
                                     Some (g\<lparr>maze := m2, path := path g @ [(x, y)]\<rparr>,
                                           (take k frontier @ drop (Suc k) frontier) @ es,
                                           rs'))))
                    else Some (g, take k frontier @ drop (Suc k) frontier, rs'))))"

definition walls :: "grid \<Rightarrow> nat" where
  "walls m = sum_list (map (\<lambda>row. count_list row Wall) m)"

text \<open>The number of wall cells of a grid, the measure of the carving loop.\<close>

lemma py_index_less: "py_index n i = Some k \<Longrightarrow> k < n"
  by (auto simp: py_index_def split: if_splits)

lemma norm_coord_less:
  "norm_coord m p = Some (i, j) \<Longrightarrow> i < length m \<and> j < length (m ! i)"
  by (auto simp: norm_coord_def split: option.splits dest: py_index_less)

lemma norm_coord_update:
  assumes "i < length m"
  shows "norm_coord (m[i := (m ! i)[j := v]]) p = norm_coord m p"
proof -
  have len: "length ((m[i := (m ! i)[j := v]]) ! k) = length (m ! k)" for k
    using assms by (cases "k = i") simp_all
  show ?thesis by (simp add: norm_coord_def len split: option.splits)
qed

lemma count_list_update:
  "j < length xs \<Longrightarrow>
   count_list (xs[j := v]) a + (if xs ! j = a then 1 else 0)
     = count_list xs a + (if v = a then 1 else 0)"
proof (induction xs arbitrary: j)
  case Nil
  then show ?case by simp
next
  case (Cons x xs)
  show ?case
  proof (cases j)
    case 0
    then show ?thesis by simp
  next
    case (Suc n)
    with Cons.prems have "n < length xs" by simp
    from Cons.IH [OF this] show ?thesis by (auto simp: Suc split: if_splits)
  qed
qed

lemma sum_list_map_update:
  fixes f :: "'a \<Rightarrow> nat"
  shows "i < length m \<Longrightarrow>
   sum_list (map f (m[i := r])) + f (m ! i) = sum_list (map f m) + f r"
proof (induction m arbitrary: i)
  case Nil
  then show ?case by simp
next
  case (Cons x xs)
  then show ?case by (cases i) auto
qed

lemma walls_update:
  assumes "i < length m" "j < length (m ! i)"
  shows "walls (m[i := (m ! i)[j := v]]) + (if m ! i ! j = Wall then 1 else 0)
           = walls m + (if v = Wall then 1 else 0)"
proof -
  let ?f = "\<lambda>row. count_list row Wall"
  have "walls (m[i := (m ! i)[j := v]]) + ?f (m ! i) = walls m + ?f ((m ! i)[j := v])"
    unfolding walls_def using assms(1) by (rule sum_list_map_update)
  moreover have "?f ((m ! i)[j := v]) + (if m ! i ! j = Wall then 1 else 0)
                   = ?f (m ! i) + (if v = Wall then 1 else 0)"
    using assms(2) by (rule count_list_update)
  ultimately show ?thesis by linarith
qed

lemma nth_nth_update:
  assumes "i < length m" "j < length (m ! i)" "a < length m" "b < length (m ! a)"
  shows "m[i := (m ! i)[j := v]] ! a ! b = (if (a, b) = (i, j) then v else m ! a ! b)"
  using assms by (cases "a = i") auto

lemma carve_walls_decrease:
  assumes c: "cell m q = Some Wall"
    and s1: "set_cell m p Open = Some m1"
    and s2: "set_cell m1 q Open = Some m2"
  shows "walls m2 < walls m"
proof -
  from c obtain i j where q: "norm_coord m q = Some (i, j)" and w: "m ! i ! j = Wall"
    by (auto simp: cell_def split: option.splits)
  from s1 obtain a b where p: "norm_coord m p = Some (a, b)"
    and m1: "m1 = m[a := (m ! a)[b := Open]]"
    by (auto simp: set_cell_def split: option.splits)
  have lp: "a < length m" "b < length (m ! a)" using p norm_coord_less by blast+
  have lq: "i < length m" "j < length (m ! i)" using q norm_coord_less by blast+
  have q1: "norm_coord m1 q = Some (i, j)"
    using q lp(1) by (simp add: m1 norm_coord_update)
  with s2 have m2: "m2 = m1[i := (m1 ! i)[j := Open]]"
    by (simp add: set_cell_def)
  have lq1: "i < length m1" "j < length (m1 ! i)" using q1 norm_coord_less by blast+
  have w1: "walls m1 + (if m ! a ! b = Wall then 1 else 0) = walls m"
    using walls_update [OF lp, of Open] by (simp add: m1)
  have w2: "walls m2 + (if m1 ! i ! j = Wall then 1 else 0) = walls m1"
    using walls_update [OF lq1, of Open] by (simp add: m2)
  have "m1 ! i ! j = (if (i, j) = (a, b) then Open else Wall)"
    using nth_nth_update [OF lp lq, of Open] w by (simp add: m1)
  with w w1 w2 show ?thesis by (auto split: if_splits)
qed

lemma draw_less: "0 < n \<Longrightarrow> draw n rs = (k, rs') \<Longrightarrow> k < n"
  by (cases rs) auto

lemma carve_step_measure:
  assumes "frontier \<noteq> []" "carve_step g frontier rs = Some (g', frontier', rs')"
  shows "walls (maze g') < walls (maze g) \<or>
         (walls (maze g') = walls (maze g) \<and> length frontier' < length frontier)"
proof -
  obtain k rs1 where d: "draw (length frontier) rs = (k, rs1)" by (cases "draw (length frontier) rs")
  then have k: "k < length frontier" using assms(1) draw_less by auto
  obtain x y parent where e: "frontier ! k = (x, y, parent)" by (cases "frontier ! k")
  from k have len: "length (take k frontier @ drop (Suc k) frontier) < length frontier"
    by auto
  show ?thesis
    using assms(2) len
    by (auto simp: carve_step_def d e split: option.splits if_splits
             dest: carve_walls_decrease)
qed

text \<open>The \<^verbatim>\<open>while frontier\<close> loop. Each iteration either turns a wall into an open
  cell or shortens the frontier, so the loop ends.\<close>

function carve_loop :: "generator \<Rightarrow> frontier_entry list \<Rightarrow> rnd \<Rightarrow> (generator \<times> rnd) option" where
  "carve_loop g frontier rs =
     (if frontier = [] then Some (g, rs)
      else
        (case carve_step g frontier rs of
           None \<Rightarrow> None
         | Some (g', frontier', rs') \<Rightarrow> carve_loop g' frontier' rs'))"
  by pat_completeness auto
termination
proof (relation "measures [\<lambda>(g, frontier, rs). walls (maze g), \<lambda>(g, frontier, rs). length frontier]", goal_cases)
  case 1
  then show ?case by simp
next
  case (2 g frontier rs r g' s frontier' rs')
  then have "carve_step g frontier rs = Some (g', frontier', rs')" "frontier \<noteq> []" by simp_all
  from carve_step_measure [OF this(2) this(1)] show ?case by auto
qed


declare carve_loop.simps [simp del]

text \<open>The first part of \<^verbatim>\<open>_generate_base_maze\<close>: a fresh all-wall grid, the player at
  the start, the carving loop. The path attribute is not reset.\<close>

definition carve_maze :: "generator \<Rightarrow> rnd \<Rightarrow> (generator \<times> rnd) option" where
  "carve_maze g rs =
     (case set_cell (replicate (nat (height g)) (replicate (nat (width g)) Wall))
             (start g) PlayerStart of
        None \<Rightarrow> None
      | Some m1 \<Rightarrow> carve_loop (g\<lparr>maze := m1\<rparr>) (seed_frontier (g\<lparr>maze := m1\<rparr>)) rs)"

text \<open>\<^verbatim>\<open>_generate_base_maze\<close>: the carving, then the door at the exit.\<close>

definition generate_base_maze :: "generator \<Rightarrow> rnd \<Rightarrow> (generator \<times> rnd) option" where
  "generate_base_maze g rs =
     (case carve_maze g rs of
        None \<Rightarrow> None
      | Some (g2, rs') \<Rightarrow>
          (case set_cell (maze g2) (exit g2) ExitDoor of
             None \<Rightarrow> None
           | Some m3 \<Rightarrow> Some (g2\<lparr>maze := m3\<rparr>, rs')))"

subsection \<open>Obstacle injection\<close>

text \<open>The cells \<open>(i, j)\<close> with \<open>i\<close> in \<^verbatim>\<open>range(1, height-1)\<close> and \<open>j\<close> in
  \<^verbatim>\<open>range(1, width-1)\<close>, row by row.\<close>

definition interior_cells :: "generator \<Rightarrow> coord list" where
  "interior_cells g = List.product [1..height g - 2] [1..width g - 2]"

fun candidates :: "generator \<Rightarrow> coord list \<Rightarrow> coord list option" where
  "candidates g [] = Some []"
| "candidates g (p # ps) =
     (case cell (maze g) p of
        None \<Rightarrow> None
      | Some c \<Rightarrow>
          (case candidates g ps of
             None \<Rightarrow> None
           | Some cs \<Rightarrow> Some (if c = Open \<and> p \<notin> set (path g) then p # cs else cs)))"

text \<open>The loop over the shuffled candidates; the second component of the result is the
  local variable \<^verbatim>\<open>added_walls\<close> when the loop ends.\<close>

fun wall_loop :: "generator \<Rightarrow> int \<Rightarrow> int \<Rightarrow> coord list \<Rightarrow> (generator \<times> int) option" where
  "wall_loop g wall_count added_walls [] = Some (g, added_walls)"
| "wall_loop g wall_count added_walls (p # ps) =
     (if added_walls \<ge> wall_count then Some (g, added_walls)
      else
        (case cell (maze g) p of
           None \<Rightarrow> None
         | Some original \<Rightarrow>
             (case set_cell (maze g) p Wall of
                None \<Rightarrow> None
              | Some m1 \<Rightarrow>
                  (case validate_maze (g\<lparr>maze := m1\<rparr>) of
                     None \<Rightarrow> None
                   | Some True \<Rightarrow> wall_loop (g\<lparr>maze := m1\<rparr>) wall_count (added_walls + 1) ps
                   | Some False \<Rightarrow>
                       (case set_cell m1 p original of
                          None \<Rightarrow> None
                        | Some m2 \<Rightarrow> wall_loop (g\<lparr>maze := m2\<rparr>) wall_count added_walls ps)))))"

text \<open>\<^verbatim>\<open>_add_safe_walls\<close>, with its locals: the result carries the generator, the number
  of candidates, \<^verbatim>\<open>wall_count\<close>, \<^verbatim>\<open>added_walls\<close> and the rest of the tape.\<close>

definition add_safe_walls_locals ::
  "generator \<Rightarrow> rnd \<Rightarrow> (generator \<times> nat \<times> int \<times> int \<times> rnd) option" where
  "add_safe_walls_locals g rs =
     (case candidates g (interior_cells g) of
        None \<Rightarrow> None
      | Some candidate_positions \<Rightarrow>
          (case wall_count_of (length candidate_positions) (difficulty g) of
             None \<Rightarrow> None
           | Some wall_count \<Rightarrow>
               (case shuffle candidate_positions rs of
                  (shuffled, rs') \<Rightarrow>
                    (case wall_loop g wall_count 0 shuffled of
                       None \<Rightarrow> None
                     | Some (g', added_walls) \<Rightarrow>
                         Some (g', length candidate_positions, wall_count,
                               added_walls, rs')))))"

definition add_safe_walls :: "generator \<Rightarrow> rnd \<Rightarrow> (generator \<times> rnd) option" where
  "add_safe_walls g rs =
     (case add_safe_walls_locals g rs of
        None \<Rightarrow> None
      | Some (g', n, wall_count, added_walls, rs') \<Rightarrow> Some (g', rs'))"

subsection \<open>The fallback and the retry loop\<close>

fun comb :: "grid \<Rightarrow> coord list \<Rightarrow> grid option" where
  "comb m [] = Some m"
| "comb m ((i, j) # ps) =
     (if i mod 2 = 1 \<and> j mod 2 = 1 then
        (case set_cell m (i, j) Open of None \<Rightarrow> None | Some m' \<Rightarrow> comb m' ps)
      else comb m ps)"

text \<open>\<^verbatim>\<open>_generate_fallback_maze\<close> writes into the grid it finds.\<close>

definition generate_fallback_maze :: "generator \<Rightarrow> generator option" where
  "generate_fallback_maze g =
     (case comb (maze g) (interior_cells g) of
        None \<Rightarrow> None
      | Some m1 \<Rightarrow>
          (case set_cell m1 (start g) PlayerStart of
             None \<Rightarrow> None
           | Some m2 \<Rightarrow>
               (case set_cell m2 (exit g) ExitDoor of
                  None \<Rightarrow> None
                | Some m3 \<Rightarrow> Some (g\<lparr>maze := m3\<rparr>))))"

text \<open>The \<^verbatim>\<open>for _ in range(max_attempts)\<close> loop of \<^verbatim>\<open>generate\<close>: \<open>n\<close> iterations are
  left and \<open>k\<close> have been made. The result carries the generator, the tape, whether an
  attempt returned its grid, and the number of iterations made.\<close>

fun attempts ::
  "nat \<Rightarrow> nat \<Rightarrow> generator \<Rightarrow> rnd \<Rightarrow> (generator \<times> rnd \<times> bool \<times> nat) option" where
  "attempts 0 k g rs = Some (g, rs, False, k)"
| "attempts (Suc n) k g rs =
     (case generate_base_maze g rs of
        None \<Rightarrow> None
      | Some (g1, rs1) \<Rightarrow>
          (case validate_maze g1 of
             None \<Rightarrow> None
           | Some False \<Rightarrow> attempts n (Suc k) g1 rs1
           | Some True \<Rightarrow>
               (case add_safe_walls g1 rs1 of
                  None \<Rightarrow> None
                | Some (g2, rs2) \<Rightarrow>
                    (case validate_maze g2 of
                       None \<Rightarrow> None
                     | Some True \<Rightarrow> Some (g2, rs2, True, Suc k)
                     | Some False \<Rightarrow> attempts n (Suc k) g2 rs2))))"

definition max_attempts :: nat where
  "max_attempts = 10"

text \<open>\<^verbatim>\<open>generate\<close>: the generator object after the call, with the number of attempts
  made; the value returned to the caller is its grid.\<close>

definition generate_self :: "generator \<Rightarrow> rnd \<Rightarrow> (generator \<times> nat) option" where
  "generate_self g rs =
     (case attempts max_attempts 0 g rs of
        None \<Rightarrow> None
      | Some (g', rs', returned, k) \<Rightarrow>
          if returned then Some (g', k)
          else (case generate_fallback_maze g' of None \<Rightarrow> None | Some g'' \<Rightarrow> Some (g'', k)))"

definition generate :: "generator \<Rightarrow> rnd \<Rightarrow> grid option" where
  "generate g rs = map_option (\<lambda>(g', k). maze g') (generate_self g rs)"

section \<open>Specification notions\<close>

text \<open>A generator is well formed when its grid has \<open>height\<close> rows of \<open>width\<close> cells.\<close>

definition well_formed :: "generator \<Rightarrow> bool" where
  "well_formed g \<longleftrightarrow>
     length (maze g) = nat (height g) \<and> (\<forall>row \<in> set (maze g). length row = nat (width g))"

text \<open>Two coordinates are adjacent when they differ by one step up, down, left or
  right. A coordinate is passable when it lies in the grid and its cell is not a wall.
  \<open>reachable g p q\<close>: some path of adjacent steps leads from \<open>p\<close> to \<open>q\<close>, every
  cell entered being passable.\<close>

definition adjacent :: "coord \<Rightarrow> coord \<Rightarrow> bool" where
  "adjacent p q \<longleftrightarrow>
     q = (fst p - 1, snd p) \<or> q = (fst p + 1, snd p) \<or>
     q = (fst p, snd p - 1) \<or> q = (fst p, snd p + 1)"

definition passable :: "generator \<Rightarrow> coord \<Rightarrow> bool" where
  "passable g q \<longleftrightarrow>
     0 \<le> fst q \<and> fst q < height g \<and> 0 \<le> snd q \<and> snd q < width g \<and>
     cell (maze g) q \<noteq> Some Wall"

inductive reachable :: "generator \<Rightarrow> coord \<Rightarrow> coord \<Rightarrow> bool" for g :: generator and p :: coord where
  here: "reachable g p p"
| step: "reachable g p q \<Longrightarrow> adjacent q r \<Longrightarrow> passable g r \<Longrightarrow> reachable g p r"


section \<open>Correctness of the reachability check\<close>

lemma norm_coord_in_grid:
  assumes "well_formed g" "p \<in> in_grid g"
  shows "norm_coord (maze g) p = Some (nat (fst p), nat (snd p))"
proof -
  from assms have x: "0 \<le> fst p" "fst p < int (length (maze g))"
    and y: "0 \<le> snd p" "snd p < width g"
    by (auto simp: well_formed_def in_grid_def)
  then have "nat (fst p) < length (maze g)" by simp
  then have "maze g ! nat (fst p) \<in> set (maze g)" by simp
  with assms(1) have "length (maze g ! nat (fst p)) = nat (width g)"
    by (simp add: well_formed_def)
  with x y show ?thesis
    by (simp add: norm_coord_def py_index_def)
qed

lemma cell_in_grid:
  "well_formed g \<Longrightarrow> p \<in> in_grid g \<Longrightarrow> \<exists>c. cell (maze g) p = Some c"
  by (simp add: cell_def norm_coord_in_grid)

lemma neighbours_spec:
  assumes "well_formed g"
  shows "\<exists>ns. neighbours g V (x, y) ds = Some ns \<and>
           set ns = {q. (\<exists>d \<in> set ds. q = (x + fst d, y + snd d)) \<and> passable g q \<and> q \<notin> V}"
proof (induction ds)
  case Nil
  then show ?case by simp
next
  case (Cons d ds)
  obtain dx dy where d: "d = (dx, dy)" by (cases d)
  from Cons obtain ms where ms: "neighbours g V (x, y) ds = Some ms"
    and sms: "set ms = {q. (\<exists>d \<in> set ds. q = (x + fst d, y + snd d)) \<and> passable g q \<and> q \<notin> V}"
    by blast
  show ?case
  proof (cases "0 \<le> x + dx \<and> x + dx < height g \<and> 0 \<le> y + dy \<and> y + dy < width g")
    case True
    then have "(x + dx, y + dy) \<in> in_grid g" by (simp add: in_grid_def)
    with assms obtain c where c: "cell (maze g) (x + dx, y + dy) = Some c"
      using cell_in_grid by blast
    have p: "passable g (x + dx, y + dy) \<longleftrightarrow> c \<noteq> Wall"
      using True c by (simp add: passable_def)
    show ?thesis
      using True c ms sms p by (auto simp: d)
  next
    case False
    then have "\<not> passable g (x + dx, y + dy)" by (auto simp: passable_def)
    with False ms sms show ?thesis by (auto simp: d)
  qed
qed

lemma neighbours_directions:
  assumes "well_formed g"
  shows "\<exists>ns. neighbours g V p directions = Some ns \<and>
           set ns = {q. adjacent p q \<and> passable g q \<and> q \<notin> V}"
proof -
  obtain x y where p: "p = (x, y)" by (cases p)
  have "(\<exists>d \<in> set directions. q = (x + fst d, y + snd d)) \<longleftrightarrow> adjacent p q" for q
    by (auto simp: directions_def adjacent_def p)
  with neighbours_spec [OF assms, of V x y directions] show ?thesis
    by (simp add: p)
qed

definition bfs_inv :: "generator \<Rightarrow> coord set \<Rightarrow> coord list \<Rightarrow> bool" where
  "bfs_inv g V Q \<longleftrightarrow>
     (\<forall>q \<in> V \<union> set Q. reachable g (start g) q) \<and>
     exit g \<notin> V \<and>
     (\<forall>v \<in> V. \<forall>q. adjacent v q \<and> passable g q \<longrightarrow> q \<in> V \<union> set Q) \<and>
     start g \<in> V \<union> set Q"

lemma bfs_step_total:
  assumes "well_formed g"
  shows "\<exists>r. bfs_step g V Q = Some r"
proof (cases Q)
  case Nil
  then show ?thesis by (simp add: bfs_step_def)
next
  case (Cons p q)
  from neighbours_directions [OF assms, of "insert p V" p] obtain ns where
    "neighbours g (insert p V) p directions = Some ns" by blast
  with Cons show ?thesis by (simp add: bfs_step_def)
qed

lemma bfs_step_inv:
  assumes "well_formed g" "bfs_inv g V Q" "bfs_step g V Q = Some (Inr (V', Q'))"
  shows "bfs_inv g V' Q'"
proof (cases Q)
  case Nil
  with assms(3) show ?thesis by (simp add: bfs_step_def)
next
  case (Cons p q)
  from assms(3) Cons have ne: "p \<noteq> exit g"
    by (auto simp: bfs_step_def split: if_splits)
  show ?thesis
  proof (cases "p \<in> V")
    case True
    with assms(3) Cons ne have eq: "V' = V" "Q' = q"
      by (auto simp: bfs_step_def)
    have "V \<union> set Q = V' \<union> set Q'"
      using Cons True eq by auto
    with assms(2) show ?thesis
      unfolding bfs_inv_def eq(1) by simp
  next
    case False
    from neighbours_directions [OF assms(1), of "insert p V" p] obtain ns where
      ns: "neighbours g (insert p V) p directions = Some ns"
      and sns: "set ns = {q. adjacent p q \<and> passable g q \<and> q \<notin> insert p V}"
      by blast
    with assms(3) Cons ne False have eq: "V' = insert p V" "Q' = q @ ns"
      by (auto simp: bfs_step_def)
    have rp: "reachable g (start g) p"
      using assms(2) Cons by (simp add: bfs_inv_def)
    have "reachable g (start g) r" if "r \<in> set ns" for r
      using that sns reachable.step [OF rp, of r] by simp
    moreover have "\<forall>q \<in> V \<union> set Q. reachable g (start g) q"
      using assms(2) by (simp add: bfs_inv_def)
    ultimately have r: "\<forall>q \<in> V' \<union> set Q'. reachable g (start g) q"
      using Cons by (auto simp: eq)
    have old: "\<forall>v \<in> V. \<forall>q. adjacent v q \<and> passable g q \<longrightarrow> q \<in> V \<union> set Q"
      using assms(2) by (simp add: bfs_inv_def)
    have c: "\<forall>v \<in> V'. \<forall>q. adjacent v q \<and> passable g q \<longrightarrow> q \<in> V' \<union> set Q'"
    proof (intro ballI allI impI)
      fix v r
      assume v: "v \<in> V'" and a: "adjacent v r \<and> passable g r"
      show "r \<in> V' \<union> set Q'"
      proof (cases "v = p")
        case True
        with a sns show ?thesis by (auto simp: eq)
      next
        case False
        with v have "v \<in> V" by (simp add: eq)
        with old a have "r \<in> V \<union> set Q" by blast
        then show ?thesis using Cons by (auto simp: eq)
      qed
    qed
    have "exit g \<notin> V'" "start g \<in> V' \<union> set Q'"
      using assms(2) Cons ne by (auto simp: bfs_inv_def eq)
    with r c show ?thesis by (simp add: bfs_inv_def)
  qed
qed

lemma closed_reachable:
  assumes "reachable g s q" "s \<in> V"
    "\<forall>v \<in> V. \<forall>q. adjacent v q \<and> passable g q \<longrightarrow> q \<in> V"
  shows "q \<in> V"
  using assms by (induction rule: reachable.induct) auto

lemma bfs_step_return:
  assumes "bfs_inv g V Q" "bfs_step g V Q = Some (Inl b)"
  shows "b \<longleftrightarrow> reachable g (start g) (exit g)"
proof (cases Q)
  case Nil
  with assms(2) have "\<not> b" by (simp add: bfs_step_def)
  moreover have "\<not> reachable g (start g) (exit g)"
  proof
    assume "reachable g (start g) (exit g)"
    moreover have "start g \<in> V"
      "\<forall>v \<in> V. \<forall>q. adjacent v q \<and> passable g q \<longrightarrow> q \<in> V"
      using assms(1) Nil by (simp_all add: bfs_inv_def)
    ultimately have "exit g \<in> V"
      by (rule closed_reachable)
    with assms(1) show False by (simp add: bfs_inv_def)
  qed
  ultimately show ?thesis by simp
next
  case (Cons p q)
  with assms(2) have "b" "p = exit g"
    by (auto simp: bfs_step_def split: if_splits option.splits)
  with assms(1) Cons show ?thesis by (simp add: bfs_inv_def)
qed

lemma bfs_correct:
  "well_formed g \<Longrightarrow> bfs_inv g V Q \<Longrightarrow> bfs g V Q = Some (reachable g (start g) (exit g))"
proof (induction g V Q rule: bfs.induct)
  case (1 g V Q)
  note wf = \<open>well_formed g\<close> and inv = \<open>bfs_inv g V Q\<close>
  from bfs_step_total [OF wf, of V Q] obtain r where r: "bfs_step g V Q = Some r"
    by blast
  show ?case
  proof (cases r)
    case (Inl b)
    with r inv show ?thesis
      by (subst bfs.simps) (simp add: bfs_step_return)
  next
    case (Inr vq)
    obtain V' Q' where vq: "vq = (V', Q')" by (cases vq)
    have "bfs_inv g V' Q'"
      using wf inv r Inr vq by (auto intro: bfs_step_inv)
    then have "bfs g V' Q' = Some (reachable g (start g) (exit g))"
      using "1.IH" [OF r Inr vq [symmetric] wf] by simp
    with r Inr vq show ?thesis by (subst bfs.simps) simp
  qed
qed

lemma validate_maze_correct:
  "well_formed g \<Longrightarrow> validate_maze g = Some (reachable g (start g) (exit g))"
  unfolding validate_maze_def
  by (rule bfs_correct) (auto simp: bfs_inv_def intro: reachable.here)

lemma validate_maze_same: "start g = exit g \<Longrightarrow> validate_maze g = Some True"
  unfolding validate_maze_def by (subst bfs.simps) (simp add: bfs_step_def)

section \<open>Grid lemmas\<close>

lemma set_cell_in_grid:
  "well_formed g \<Longrightarrow> p \<in> in_grid g \<Longrightarrow> \<exists>m'. set_cell (maze g) p v = Some m'"
  by (simp add: set_cell_def norm_coord_in_grid)

lemma set_cell_dims:
  assumes "set_cell m p v = Some m'"
  shows "length m' = length m \<and> (\<forall>k < length m. length (m' ! k) = length (m ! k))"
proof -
  from assms obtain i j where ij: "norm_coord m p = Some (i, j)"
    and m': "m' = m[i := (m ! i)[j := v]]"
    by (auto simp: set_cell_def split: option.splits)
  have "length (m' ! k) = length (m ! k)" if "k < length m" for k
    using that by (cases "k = i") (simp_all add: m')
  then show ?thesis by (simp add: m')
qed

lemma set_cell_well_formed:
  assumes "set_cell (maze g) p v = Some m'" "well_formed g"
    "maze g' = m'" "height g' = height g" "width g' = width g"
  shows "well_formed g'"
proof -
  from set_cell_dims [OF assms(1)] have len: "length m' = length (maze g)"
    and rows: "\<forall>k < length (maze g). length (m' ! k) = length (maze g ! k)" by simp_all
  have "length row = nat (width g)" if "row \<in> set m'" for row
  proof -
    from that obtain k where k: "k < length m'" "row = m' ! k"
      by (auto simp: in_set_conv_nth)
    with len rows have "length row = length (maze g ! k)" by simp
    moreover have "maze g ! k \<in> set (maze g)" using k len by simp
    ultimately show ?thesis using assms(2) by (simp add: well_formed_def)
  qed
  with len assms show ?thesis by (simp add: well_formed_def)
qed

lemma cell_set_cell:
  assumes "well_formed g" "p \<in> in_grid g" "q \<in> in_grid g"
    "set_cell (maze g) p v = Some m'"
  shows "cell m' q = (if q = p then Some v else cell (maze g) q)"
proof -
  let ?m = "maze g"
  have np: "norm_coord ?m p = Some (nat (fst p), nat (snd p))"
    and nq: "norm_coord ?m q = Some (nat (fst q), nat (snd q))"
    using assms by (simp_all add: norm_coord_in_grid)
  from assms(4) np have m': "m' = ?m[nat (fst p) := (?m ! nat (fst p))[nat (snd p) := v]]"
    by (simp add: set_cell_def)
  have lp: "nat (fst p) < length ?m" "nat (snd p) < length (?m ! nat (fst p))"
    using norm_coord_less [OF np] by simp_all
  have lq: "nat (fst q) < length ?m" "nat (snd q) < length (?m ! nat (fst q))"
    using norm_coord_less [OF nq] by simp_all
  have nq': "norm_coord m' q = Some (nat (fst q), nat (snd q))"
    using nq lp(1) by (simp add: m' norm_coord_update)
  have same: "(nat (fst q), nat (snd q)) = (nat (fst p), nat (snd p)) \<longleftrightarrow> q = p"
    using assms(2,3) by (auto simp: in_grid_def prod_eq_iff)
  have "m' ! nat (fst q) ! nat (snd q) =
          (if (nat (fst q), nat (snd q)) = (nat (fst p), nat (snd p)) then v
           else ?m ! nat (fst q) ! nat (snd q))"
    unfolding m' using lp lq by (rule nth_nth_update)
  with same show ?thesis
    by (simp add: cell_def nq nq')
qed

lemma set_cell_restore:
  assumes "cell m p = Some c" "set_cell m p v = Some m1"
  shows "set_cell m1 p c = Some m"
proof -
  from assms(1) obtain i j where ij: "norm_coord m p = Some (i, j)" and c: "c = m ! i ! j"
    by (auto simp: cell_def split: option.splits)
  from assms(2) ij have m1: "m1 = m[i := (m ! i)[j := v]]"
    by (simp add: set_cell_def)
  have l: "i < length m" "j < length (m ! i)" using norm_coord_less [OF ij] by simp_all
  have "norm_coord m1 p = Some (i, j)"
    using ij l(1) by (simp add: m1 norm_coord_update)
  then have "set_cell m1 p c = Some (m1[i := (m1 ! i)[j := c]])"
    by (simp add: set_cell_def)
  also have "m1[i := (m1 ! i)[j := c]] = m"
    using l by (simp add: m1 c)
  finally show ?thesis .
qed

lemma validate_maze_total:
  "well_formed g \<Longrightarrow> \<exists>b. validate_maze g = Some b"
  by (simp add: validate_maze_correct)

lemma in_grid_maze_update [simp]: "in_grid (g\<lparr>maze := m\<rparr>) = in_grid g"
  by (simp add: in_grid_def)

section \<open>Bounds of the float product\<close>

lemma float_limit_eq: "float_limit = 2 ^ 1024 - 2 ^ 970"
  by (simp add: float_limit_def)

lemma pow2_pos: "0 < pow2 e"
  by (simp add: pow2_def)

lemma pow2_add: "pow2 (a + b) = pow2 a * pow2 b"
proof -
  have "pow2 e = 2 powi e" for e
    by (simp add: pow2_def power_int_def field_simps)
  then show ?thesis by (simp add: power_int_add)
qed

lemma pow2_nat: "0 \<le> e \<Longrightarrow> pow2 e = of_int (2 ^ nat e)"
  by (simp add: pow2_def)

lemma pow2_mono: "a \<le> b \<Longrightarrow> pow2 a \<le> pow2 b"
proof -
  assume "a \<le> b"
  then have "pow2 b = pow2 a * pow2 (b - a)" using pow2_add [of a "b - a"] by simp
  moreover have "1 \<le> pow2 (b - a)" using \<open>a \<le> b\<close> by (simp add: pow2_def)
  ultimately show ?thesis using pow2_pos [of a] by simp
qed

lemma pow2_less_imp: "pow2 a \<le> r \<Longrightarrow> r \<le> pow2 b \<Longrightarrow> a \<le> b"
proof (rule ccontr)
  assume a: "pow2 a \<le> r" "r \<le> pow2 b" and "\<not> a \<le> b"
  then have "b + 1 \<le> a" by simp
  then have "pow2 (b + 1) \<le> pow2 a" by (rule pow2_mono)
  moreover have "pow2 1 = 2" by (simp add: pow2_def)
  then have "pow2 (b + 1) = 2 * pow2 b" using pow2_add [of b 1] by simp
  ultimately have "2 * pow2 b \<le> pow2 b" using a by linarith
  with pow2_pos [of b] show False by simp
qed

lemma floor_log2_le:
  assumes "0 < r"
  shows "pow2 (floor_log2 r) \<le> r"
proof -
  obtain a b where q: "quotient_of r = (a, b)" by (cases "quotient_of r")
  then have b: "0 < b" and r: "r = of_int a / of_int b"
    using quotient_of_denom_pos quotient_of_div by blast+
  from assms r b have a: "0 < a" by (simp add: zero_less_divide_iff)
  let ?k = "bitlen a - bitlen b"
  show ?thesis
  proof (cases "pow2 ?k \<le> r")
    case True
    then show ?thesis by (simp add: floor_log2_def q)
  next
    case False
    from bitlen_bounds [OF a] have la: "2 ^ nat (bitlen a - 1) \<le> a" by simp
    from bitlen_bounds [OF b] have lb: "b < 2 ^ nat (bitlen b)" by simp
    have ba: "1 \<le> bitlen a" using a bitlen_eq_zero_iff [of a] bitlen_nonneg [of a] by linarith
    have bb: "0 \<le> bitlen b" by (rule bitlen_nonneg)
    have pa: "pow2 (bitlen a - 1) \<le> of_int a"
      using la ba by (simp add: pow2_nat)
    have pb: "of_int b \<le> pow2 (bitlen b)"
      using lb bb by (simp add: pow2_nat)
    have "pow2 (?k - 1) * pow2 (bitlen b) = pow2 (bitlen a - 1)"
      using pow2_add [of "?k - 1" "bitlen b"] by simp
    then have "pow2 (?k - 1) * of_int b \<le> of_int a"
      using pa pb pow2_pos [of "?k - 1"]
      by (metis (no_types) dual_order.trans mult_left_mono less_imp_le)
    then have "pow2 (?k - 1) \<le> r"
      using b by (simp add: r pos_le_divide_eq)
    with False show ?thesis by (simp add: floor_log2_def q)
  qed
qed

lemma round_half_even_nonneg: "0 \<le> r \<Longrightarrow> 0 \<le> round_half_even r"
  by (simp add: round_half_even_def)

lemma round_half_even_le:
  assumes "r \<le> of_int N"
  shows "round_half_even r \<le> N"
proof -
  have f: "\<lfloor>r\<rfloor> \<le> N" using assms by (simp add: floor_le_iff)
  show ?thesis
  proof (cases "\<lfloor>r\<rfloor> = N")
    case True
    then have "(of_int \<lfloor>r\<rfloor> :: rat) = of_int N" by simp
    with assms of_int_floor_le [of r] have z: "r - of_int \<lfloor>r\<rfloor> = 0" by linarith
    have "round_half_even r = \<lfloor>r\<rfloor>" unfolding round_half_even_def z by simp
    with f show ?thesis by simp
  next
    case False
    with f have "\<lfloor>r\<rfloor> + 1 \<le> N" by simp
    then show ?thesis by (simp add: round_half_even_def)
  qed
qed

lemma round53_nonneg:
  assumes "0 \<le> r"
  shows "0 \<le> round53 r"
proof (cases "r = 0")
  case True
  then show ?thesis by (simp add: round53_def)
next
  case False
  have "0 \<le> r / pow2 (ulp_exponent r)" using assms pow2_pos [of "ulp_exponent r"] by simp
  then have "0 \<le> round_half_even (r / pow2 (ulp_exponent r))"
    by (rule round_half_even_nonneg)
  then show ?thesis using False pow2_pos [of "ulp_exponent r"] by (simp add: round53_def)
qed

lemma round53_le_pow2:
  assumes "0 \<le> r" "r \<le> pow2 k" "- 1074 \<le> k"
  shows "round53 r \<le> pow2 k"
proof (cases "r = 0")
  case True
  then show ?thesis using pow2_pos [of k] by (simp add: round53_def)
next
  case False
  with assms have pos: "0 < r" by simp
  let ?e = "ulp_exponent r"
  have "pow2 (floor_log2 r) \<le> r" using pos by (rule floor_log2_le)
  then have "floor_log2 r \<le> k" using assms(2) by (rule pow2_less_imp)
  then have ek: "?e \<le> k" using assms(1,3) by (simp add: ulp_exponent_def)
  have split: "pow2 k = pow2 (k - ?e) * pow2 ?e" using pow2_add [of "k - ?e" ?e] by simp
  have "r / pow2 ?e \<le> pow2 (k - ?e)"
    using assms(2) pow2_pos [of ?e] by (simp add: split pos_divide_le_eq)
  also have "pow2 (k - ?e) = of_int (2 ^ nat (k - ?e))" using ek by (simp add: pow2_nat)
  finally have "round_half_even (r / pow2 ?e) \<le> 2 ^ nat (k - ?e)"
    by (rule round_half_even_le)
  then have "(of_int (round_half_even (r / pow2 ?e)) :: rat) \<le> of_int (2 ^ nat (k - ?e))"
    by (simp only: of_int_le_iff)
  also have "(of_int (2 ^ nat (k - ?e)) :: rat) = pow2 (k - ?e)" using ek by (simp add: pow2_nat)
  finally have "of_int (round_half_even (r / pow2 ?e)) * pow2 ?e \<le> pow2 (k - ?e) * pow2 ?e"
    using pow2_pos [of ?e] by simp
  then show ?thesis using False by (simp add: round53_def split)
qed

lemma float_of_len_bounds: "0 \<le> float_of_len n \<and> float_of_len n \<le> 2 ^ 63"
proof -
  let ?r = "of_int (min (int n) (2 ^ 63 - 1)) :: rat"
  have r0: "0 \<le> ?r" by simp
  have "min (int n) (2 ^ 63 - 1) \<le> 2 ^ 63" by simp
  then have "?r \<le> of_int (2 ^ 63)" by (simp only: of_int_le_iff)
  then have "?r \<le> pow2 63" by (simp add: pow2_def)
  from round53_le_pow2 [OF r0 this] have "round53 ?r \<le> pow2 63" by simp
  with round53_nonneg [OF r0] show ?thesis by (simp add: float_of_len_def pow2_def)
qed

lemma wall_count_of_unit:
  assumes "0 \<le> q" "q \<le> 1"
  shows "\<exists>wc. wall_count_of n (Finite q) = Some wc \<and> 0 \<le> wc"
proof -
  let ?a = "float_of_len n"
  from float_of_len_bounds [of n] have a: "0 \<le> ?a" "?a \<le> 2 ^ 63" by simp_all
  have p0: "0 \<le> ?a * q" using a(1) assms(1) by simp
  have "?a * q \<le> ?a" using a(1) assms by (simp add: mult_left_le)
  with a(2) have "?a * q \<le> 2 ^ 63" by linarith
  moreover have "(2 ^ 63 :: rat) < float_limit" by (simp add: float_limit_def)
  ultimately have lt: "?a * q < float_limit" by linarith
  have "0 < float_limit" by (simp add: float_limit_def)
  with p0 have "\<not> ?a * q \<le> - float_limit" by linarith
  with lt have "to_float (?a * q) = Finite (round53 (?a * q))" by (simp add: to_float_def)
  moreover have "0 \<le> round53 (?a * q)" using p0 by (rule round53_nonneg)
  ultimately show ?thesis by (simp add: wall_count_of_def)
qed

lemma wall_count_of_finite:
  assumes "\<bar>q\<bar> \<le> 2 ^ 960"
  shows "\<exists>wc. wall_count_of n (Finite q) = Some wc"
proof -
  let ?a = "float_of_len n"
  from float_of_len_bounds [of n] have a: "0 \<le> ?a" "?a \<le> 2 ^ 63" by simp_all
  have "\<bar>?a * q\<bar> = ?a * \<bar>q\<bar>" using a(1) by (simp add: abs_mult)
  also have "\<dots> \<le> 2 ^ 63 * 2 ^ 960" using a assms by (intro mult_mono) simp_all
  also have "\<dots> < float_limit" by (simp add: float_limit_def)
  finally have "\<bar>?a * q\<bar> < float_limit" .
  then have "to_float (?a * q) = Finite (round53 (?a * q))" by (auto simp: to_float_def)
  then show ?thesis by (simp add: wall_count_of_def)
qed

section \<open>Obstacle injection keeps the grid well formed and validated\<close>

lemma wall_loop_safe:
  assumes "well_formed g" "set ps \<subseteq> in_grid g"
  shows "\<exists>g' a'. wall_loop g wc a ps = Some (g', a') \<and> well_formed g' \<and>
           g' = g\<lparr>maze := maze g'\<rparr> \<and>
           (validate_maze g = Some True \<longrightarrow> validate_maze g' = Some True) \<and>
           (\<forall>q \<in> in_grid g. cell (maze g') q = cell (maze g) q \<or>
              (q \<in> set ps \<and> cell (maze g') q = Some Wall))"
  using assms
proof (induction ps arbitrary: g a)
  case Nil
  then show ?case by simp
next
  case (Cons p ps)
  show ?case
  proof (cases "a \<ge> wc")
    case True
    with Cons.prems show ?thesis by simp
  next
    case False
    from Cons.prems have p: "p \<in> in_grid g" and ps: "set ps \<subseteq> in_grid g" by simp_all
    from cell_in_grid [OF Cons.prems(1) p] obtain original where
      o: "cell (maze g) p = Some original" by blast
    from set_cell_in_grid [OF Cons.prems(1) p] obtain m1 where
      m1: "set_cell (maze g) p Wall = Some m1" by blast
    let ?g1 = "g\<lparr>maze := m1\<rparr>"
    have wf1: "well_formed ?g1"
      using m1 Cons.prems(1) by (rule set_cell_well_formed) simp_all
    from validate_maze_total [OF wf1] obtain b where b: "validate_maze ?g1 = Some b" by blast
    show ?thesis
    proof (cases b)
      case True
      have "set ps \<subseteq> in_grid ?g1" using ps by simp
      from Cons.IH [OF wf1 this, of "a + 1"] obtain g' a' where
        r: "wall_loop ?g1 wc (a + 1) ps = Some (g', a')" "well_formed g'"
          "g' = ?g1\<lparr>maze := maze g'\<rparr>"
          "validate_maze ?g1 = Some True \<longrightarrow> validate_maze g' = Some True"
          "\<forall>q \<in> in_grid ?g1. cell (maze g') q = cell (maze ?g1) q \<or>
              (q \<in> set ps \<and> cell (maze g') q = Some Wall)"
        by blast
      have run: "wall_loop g wc a (p # ps) = Some (g', a')"
        using r(1) False o m1 b True by simp
      have frame: "g' = g\<lparr>maze := maze g'\<rparr>" using r(3) by simp
      have valid: "validate_maze g' = Some True" using r(4) b True by simp
      have cells: "cell (maze g') q = cell (maze g) q \<or>
              (q \<in> set (p # ps) \<and> cell (maze g') q = Some Wall)" if "q \<in> in_grid g" for q
      proof -
        have "cell m1 q = (if q = p then Some Wall else cell (maze g) q)"
          using Cons.prems(1) p that m1 by (rule cell_set_cell)
        moreover have "cell (maze g') q = cell m1 q \<or>
              (q \<in> set ps \<and> cell (maze g') q = Some Wall)"
          using r(5) that by simp
        ultimately show ?thesis by (auto split: if_splits)
      qed
      from run r(2) frame valid cells show ?thesis by blast
    next
      case F: False
      from set_cell_restore [OF o m1] have m2: "set_cell m1 p original = Some (maze g)" .
      from Cons.IH [OF Cons.prems(1) ps, of a] obtain g' a' where
        r: "wall_loop g wc a ps = Some (g', a')" "well_formed g'"
          "g' = g\<lparr>maze := maze g'\<rparr>"
          "validate_maze g = Some True \<longrightarrow> validate_maze g' = Some True"
          "\<forall>q \<in> in_grid g. cell (maze g') q = cell (maze g) q \<or>
              (q \<in> set ps \<and> cell (maze g') q = Some Wall)"
        by blast
      have run: "wall_loop g wc a (p # ps) = Some (g', a')"
        using r(1) False o m1 b F m2 by simp
      have cells: "\<forall>q \<in> in_grid g. cell (maze g') q = cell (maze g) q \<or>
              (q \<in> set (p # ps) \<and> cell (maze g') q = Some Wall)"
        using r(5) by auto
      from run r(2,3,4) cells show ?thesis by blast
    qed
  qed
qed

lemma shuffle_down_set:
  "i < length xs \<Longrightarrow> set (fst (shuffle_down i xs rs)) = set xs"
proof (induction i arbitrary: xs rs)
  case 0
  then show ?case by simp
next
  case (Suc i)
  obtain j rs' where d: "draw (Suc (Suc i)) rs = (j, rs')" by (cases "draw (Suc (Suc i)) rs")
  then have "j < Suc (Suc i)" using draw_less [of "Suc (Suc i)" rs j rs'] by simp
  with Suc.prems have j: "j < length xs" by simp
  let ?ys = "xs[Suc i := xs ! j, j := xs ! Suc i]"
  have "set ?ys = set xs" using Suc.prems j by (rule set_swap)
  moreover have "set (fst (shuffle_down i ?ys rs')) = set ?ys"
    using Suc.prems by (intro Suc.IH) simp
  ultimately show ?case by (simp add: d)
qed

lemma shuffle_set: "shuffle xs rs = (ys, rs') \<Longrightarrow> set ys = set xs"
proof (cases xs)
  case Nil
  assume "shuffle xs rs = (ys, rs')"
  with Nil show ?thesis by (simp add: shuffle_def)
next
  case (Cons x xs')
  assume "shuffle xs rs = (ys, rs')"
  moreover have "length xs - 1 < length xs" using Cons by simp
  ultimately show ?thesis
    using shuffle_down_set [of "length xs - 1" xs rs] by (simp add: shuffle_def)
qed

lemma interior_cells_iff: "p \<in> set (interior_cells g) \<longleftrightarrow> interior g p"
  by (cases p) (auto simp: interior_cells_def interior_def)

lemma interior_in_grid: "interior g p \<Longrightarrow> p \<in> in_grid g"
  by (cases p) (auto simp: interior_def in_grid_def)

lemma candidates_spec:
  assumes "well_formed g" "set ps \<subseteq> in_grid g"
  shows "\<exists>cs. candidates g ps = Some cs \<and>
           set cs = {p \<in> set ps. cell (maze g) p = Some Open \<and> p \<notin> set (path g)}"
  using assms(2)
proof (induction ps)
  case Nil
  then show ?case by simp
next
  case (Cons p ps)
  then obtain cs where cs: "candidates g ps = Some cs"
    "set cs = {p \<in> set ps. cell (maze g) p = Some Open \<and> p \<notin> set (path g)}"
    by auto
  from Cons.prems have "p \<in> in_grid g" by simp
  from cell_in_grid [OF assms(1) this] obtain c where c: "cell (maze g) p = Some c" by blast
  have "{q \<in> set (p # ps). cell (maze g) q = Some Open \<and> q \<notin> set (path g)}
          = (if c = Open \<and> p \<notin> set (path g) then {p} else {}) \<union> set cs"
    unfolding cs(2) using c by (auto split: if_splits)
  then show ?case using cs(1) c by simp
qed

lemma add_safe_walls_locals_safe:
  assumes "well_formed g"
    and cs: "candidates g (interior_cells g) = Some cs"
    and wc: "wall_count_of (length cs) (difficulty g) = Some wc"
  shows "\<exists>g' a rs'. add_safe_walls_locals g rs = Some (g', length cs, wc, a, rs') \<and>
           well_formed g' \<and> g' = g\<lparr>maze := maze g'\<rparr> \<and>
           (validate_maze g = Some True \<longrightarrow> validate_maze g' = Some True) \<and>
           (\<forall>q \<in> in_grid g. cell (maze g') q = cell (maze g) q \<or>
              (interior g q \<and> cell (maze g) q = Some Open \<and> cell (maze g') q = Some Wall))"
proof -
  have sub: "set (interior_cells g) \<subseteq> in_grid g"
    using interior_cells_iff interior_in_grid by blast
  from candidates_spec [OF assms(1) sub] cs have
    scs: "set cs = {p \<in> set (interior_cells g).
                 cell (maze g) p = Some Open \<and> p \<notin> set (path g)}"
    by auto
  obtain shuffled rs' where sh: "shuffle cs rs = (shuffled, rs')" by (cases "shuffle cs rs")
  then have ssh: "set shuffled = set cs" by (rule shuffle_set)
  with scs sub have "set shuffled \<subseteq> in_grid g" by auto
  from wall_loop_safe [OF assms(1) this, of wc 0]
  obtain g' a' where
    r: "wall_loop g wc 0 shuffled = Some (g', a')"
      "well_formed g'" "g' = g\<lparr>maze := maze g'\<rparr>"
      "validate_maze g = Some True \<longrightarrow> validate_maze g' = Some True"
      "\<forall>q \<in> in_grid g. cell (maze g') q = cell (maze g) q \<or>
              (q \<in> set shuffled \<and> cell (maze g') q = Some Wall)"
    by blast
  have run: "add_safe_walls_locals g rs = Some (g', length cs, wc, a', rs')"
    using cs wc sh r(1) by (simp add: add_safe_walls_locals_def)
  have "\<forall>q \<in> in_grid g. cell (maze g') q = cell (maze g) q \<or>
              (interior g q \<and> cell (maze g) q = Some Open \<and> cell (maze g') q = Some Wall)"
    using r(5) ssh scs interior_cells_iff by auto
  with run r(2,3,4) show ?thesis by blast
qed

lemma add_safe_walls_locals_parts:
  assumes "add_safe_walls_locals g rs = Some (g', n, wc, a, rs')"
  shows "\<exists>cs. candidates g (interior_cells g) = Some cs \<and> n = length cs \<and>
           wall_count_of (length cs) (difficulty g) = Some wc"
  using assms
  by (auto simp: add_safe_walls_locals_def split: option.splits prod.splits)

lemma add_safe_walls_safe:
  assumes "well_formed g" "add_safe_walls g rs = Some (g', rs')"
  shows "well_formed g' \<and> g' = g\<lparr>maze := maze g'\<rparr> \<and>
           (validate_maze g = Some True \<longrightarrow> validate_maze g' = Some True) \<and>
           (\<forall>q \<in> in_grid g. cell (maze g') q = cell (maze g) q \<or>
              (interior g q \<and> cell (maze g) q = Some Open \<and> cell (maze g') q = Some Wall))"
proof -
  from assms(2) obtain n wc a where
    l: "add_safe_walls_locals g rs = Some (g', n, wc, a, rs')"
    by (auto simp: add_safe_walls_def split: option.splits)
  from add_safe_walls_locals_parts [OF l] obtain cs where
    cs: "candidates g (interior_cells g) = Some cs"
    and w: "wall_count_of (length cs) (difficulty g) = Some wc" by blast
  from add_safe_walls_locals_safe [OF assms(1) cs w, of rs] l show ?thesis by auto
qed

lemma add_safe_walls_locals_total:
  assumes "well_formed g" "difficulty g = Finite q" "0 \<le> q" "q \<le> 1"
  shows "\<exists>g' n wc a rs'. add_safe_walls_locals g rs = Some (g', n, wc, a, rs')"
proof -
  have sub: "set (interior_cells g) \<subseteq> in_grid g"
    using interior_cells_iff interior_in_grid by blast
  from candidates_spec [OF assms(1) sub] obtain cs where
    cs: "candidates g (interior_cells g) = Some cs" by blast
  from wall_count_of_unit [OF assms(3,4), of "length cs"] obtain wc where
    "wall_count_of (length cs) (difficulty g) = Some wc" by (auto simp: assms(2))
  from add_safe_walls_locals_safe [OF assms(1) cs this, of rs] show ?thesis by blast
qed

lemma add_safe_walls_total:
  assumes "well_formed g" "difficulty g = Finite q" "0 \<le> q" "q \<le> 1"
  shows "\<exists>g' rs'. add_safe_walls g rs = Some (g', rs')"
proof -
  from add_safe_walls_locals_total [OF assms, of rs] obtain g' n wc a rs' where
    "add_safe_walls_locals g rs = Some (g', n, wc, a, rs')" by blast
  then show ?thesis by (simp add: add_safe_walls_def)
qed

lemma add_safe_walls_returns:
  assumes "well_formed g" "difficulty g = Finite q" "\<bar>q\<bar> \<le> 2 ^ 960"
  shows "\<exists>g' rs'. add_safe_walls g rs = Some (g', rs')"
proof -
  have sub: "set (interior_cells g) \<subseteq> in_grid g"
    using interior_cells_iff interior_in_grid by blast
  from candidates_spec [OF assms(1) sub] obtain cs where
    cs: "candidates g (interior_cells g) = Some cs" by blast
  from wall_count_of_finite [OF assms(3), of "length cs"] obtain wc where
    "wall_count_of (length cs) (difficulty g) = Some wc" by (auto simp: assms(2))
  from add_safe_walls_locals_safe [OF assms(1) cs this, of rs] obtain g' a rs' where
    "add_safe_walls_locals g rs = Some (g', length cs, wc, a, rs')" by blast
  then show ?thesis by (simp add: add_safe_walls_def)
qed

section \<open>Invariants of the carving loop\<close>

text \<open>
  The lattice cells are those at odd row and odd column. A frontier entry is in order
  when its cell and its parent are lattice cells that pass the interior test, two steps
  apart in a row or column. \<open>carving P0 g fr\<close> is the invariant of the carving loop
  started with the path \<open>P0\<close>: the border is all walls, the player stands at (1, 1)
  and nowhere else, there is no door, and the path holds \<open>P0\<close> and the open lattice
  cells.
\<close>

definition lattice :: "coord \<Rightarrow> bool" where
  "lattice p \<longleftrightarrow> fst p mod 2 = 1 \<and> snd p mod 2 = 1"

definition same_params :: "generator \<Rightarrow> generator \<Rightarrow> bool" where
  "same_params g g' \<longleftrightarrow>
     width g' = width g \<and> height g' = height g \<and> difficulty g' = difficulty g \<and>
     start g' = start g \<and> exit g' = exit g"

definition entry_ok :: "generator \<Rightarrow> frontier_entry \<Rightarrow> bool" where
  "entry_ok g e \<longleftrightarrow>
     (case e of (x, y, parent) \<Rightarrow>
        interior g (x, y) \<and> interior g parent \<and> lattice (x, y) \<and> lattice parent \<and>
        (parent = (x - 2, y) \<or> parent = (x + 2, y) \<or>
         parent = (x, y - 2) \<or> parent = (x, y + 2)))"

definition carving :: "coord list \<Rightarrow> generator \<Rightarrow> frontier_entry list \<Rightarrow> bool" where
  "carving P0 g fr \<longleftrightarrow>
     well_formed g \<and> 3 \<le> height g \<and> 3 \<le> width g \<and> start g = (1, 1) \<and>
     (\<forall>e \<in> set fr. entry_ok g e) \<and>
     (\<forall>p \<in> in_grid g.
        (\<not> interior g p \<longrightarrow> cell (maze g) p = Some Wall) \<and>
        (cell (maze g) p = Some PlayerStart \<longleftrightarrow> p = (1, 1)) \<and>
        cell (maze g) p \<noteq> Some ExitDoor) \<and>
     set (path g) = set P0 \<union> {p \<in> in_grid g. cell (maze g) p = Some Open \<and> lattice p}"

lemma expand_spec:
  assumes "well_formed g"
  shows "\<exists>es. expand g (x, y) ds = Some es \<and>
           (\<forall>e \<in> set es. \<exists>d \<in> set ds. e = (x + fst d, y + snd d, (x, y)) \<and>
                             interior g (x + fst d, y + snd d))"
proof (induction ds)
  case Nil
  then show ?case by simp
next
  case (Cons d ds)
  obtain dx dy where d: "d = (dx, dy)" by (cases d)
  from Cons obtain es where es: "expand g (x, y) ds = Some es"
    and ses: "\<forall>e \<in> set es. \<exists>d \<in> set ds. e = (x + fst d, y + snd d, (x, y)) \<and>
                             interior g (x + fst d, y + snd d)"
    by blast
  show ?case
  proof (cases "interior g (x + dx, y + dy)")
    case True
    then have "(x + dx, y + dy) \<in> in_grid g" by (rule interior_in_grid)
    from cell_in_grid [OF assms this] obtain c where
      c: "cell (maze g) (x + dx, y + dy) = Some c" by blast
    show ?thesis
    proof (cases "c = Wall")
      case W: True
      have "expand g (x, y) (d # ds) = Some ((x + dx, y + dy, (x, y)) # es)"
        using True c W es by (simp add: d)
      moreover have "\<forall>e \<in> set ((x + dx, y + dy, (x, y)) # es).
          \<exists>d' \<in> set (d # ds). e = (x + fst d', y + snd d', (x, y)) \<and>
                             interior g (x + fst d', y + snd d')"
        using ses True by (auto simp: d)
      ultimately show ?thesis by blast
    next
      case False
      have "expand g (x, y) (d # ds) = Some es"
        using True c False es by (simp add: d)
      moreover have "\<forall>e \<in> set es.
          \<exists>d' \<in> set (d # ds). e = (x + fst d', y + snd d', (x, y)) \<and>
                             interior g (x + fst d', y + snd d')"
        using ses by auto
      ultimately show ?thesis by blast
    qed
  next
    case False
    have "expand g (x, y) (d # ds) = Some es"
      using False es by (simp add: d)
    moreover have "\<forall>e \<in> set es.
          \<exists>d' \<in> set (d # ds). e = (x + fst d', y + snd d', (x, y)) \<and>
                             interior g (x + fst d', y + snd d')"
      using ses by auto
    ultimately show ?thesis by blast
  qed
qed

lemma two_writes:
  assumes "well_formed g" "p1 \<in> in_grid g" "p2 \<in> in_grid g"
  shows "\<exists>m1 m2. set_cell (maze g) p1 v1 = Some m1 \<and> set_cell m1 p2 v2 = Some m2 \<and>
           well_formed (g\<lparr>maze := m2\<rparr>) \<and>
           (\<forall>q \<in> in_grid g. cell m2 q =
              (if q = p2 then Some v2 else if q = p1 then Some v1 else cell (maze g) q))"
proof -
  from set_cell_in_grid [OF assms(1,2)] obtain m1 where
    m1: "set_cell (maze g) p1 v1 = Some m1" by blast
  let ?g1 = "g\<lparr>maze := m1\<rparr>"
  have wf1: "well_formed ?g1"
    using m1 assms(1) by (rule set_cell_well_formed) simp_all
  have "p2 \<in> in_grid ?g1" using assms(3) by simp
  from set_cell_in_grid [OF wf1 this] obtain m2 where
    m2: "set_cell m1 p2 v2 = Some m2" by auto
  have wf2: "well_formed (g\<lparr>maze := m2\<rparr>)"
    using _ wf1 by (rule set_cell_well_formed [where g = ?g1 and p = p2 and v = v2])
      (simp_all add: m2)
  have "cell m2 q = (if q = p2 then Some v2 else if q = p1 then Some v1 else cell (maze g) q)"
    if q: "q \<in> in_grid g" for q
  proof -
    have "cell m1 q = (if q = p1 then Some v1 else cell (maze g) q)"
      using assms(1,2) q m1 by (rule cell_set_cell)
    moreover have "cell m2 q = (if q = p2 then Some v2 else cell (maze ?g1) q)"
      by (rule cell_set_cell [OF wf1]) (use assms(3) q m2 in simp_all)
    ultimately show ?thesis by simp
  qed
  with m1 m2 wf2 show ?thesis by blast
qed

lemma entry_ok_params:
  "height g' = height g \<Longrightarrow> width g' = width g \<Longrightarrow> entry_ok g' e = entry_ok g e"
  by (simp add: entry_ok_def interior_def)

lemma in_grid_params:
  "height g' = height g \<Longrightarrow> width g' = width g \<Longrightarrow> in_grid g' = in_grid g"
  by (simp add: in_grid_def)

lemma interior_params:
  "height g' = height g \<Longrightarrow> width g' = width g \<Longrightarrow> interior g' p = interior g p"
  by (simp add: interior_def)

lemma midpoint_cases:
  assumes "parent = (x - 2, y) \<or> parent = (x + 2, y) \<or>
           parent = (x, y - 2) \<or> parent = (x, y + 2)"
    and "interior g (x, y)" "interior g parent" "lattice (x, y)"
  shows "interior g ((x + fst parent) div 2, (y + snd parent) div 2) \<and>
         \<not> lattice ((x + fst parent) div 2, (y + snd parent) div 2)"
proof -
  have a: "(x + (x - 2)) div 2 = x - 1" "(x + (x + 2)) div 2 = x + 1" "(x + x) div 2 = x"
    for x :: int by simp_all
  have b: "(x - 1) mod 2 = 0" "(x + 1) mod 2 = 0" if "x mod 2 = 1" for x :: int
    using that by presburger+
  from assms show ?thesis
    by (auto simp: a b interior_def lattice_def)
qed

lemma carve_step_carving:
  assumes inv: "carving P0 g fr" and ne: "fr \<noteq> []"
  shows "\<exists>g' fr' rs'. carve_step g fr rs = Some (g', fr', rs') \<and> carving P0 g' fr' \<and>
           same_params g g'"
proof -
  from inv have wf: "well_formed g" and dims: "3 \<le> height g" "3 \<le> width g"
    and st: "start g = (1, 1)"
    and ents: "\<forall>e \<in> set fr. entry_ok g e"
    and cells: "\<forall>p \<in> in_grid g.
        (\<not> interior g p \<longrightarrow> cell (maze g) p = Some Wall) \<and>
        (cell (maze g) p = Some PlayerStart \<longleftrightarrow> p = (1, 1)) \<and>
        cell (maze g) p \<noteq> Some ExitDoor"
    and pth: "set (path g) = set P0 \<union> {p \<in> in_grid g. cell (maze g) p = Some Open \<and> lattice p}"
    by (simp_all add: carving_def)
  obtain k rs1 where d: "draw (length fr) rs = (k, rs1)" by (cases "draw (length fr) rs")
  have k: "k < length fr" using ne d draw_less [of "length fr" rs k rs1] by simp
  obtain x y parent where e: "fr ! k = (x, y, parent)" by (cases "fr ! k")
  let ?fr0 = "take k fr @ drop (Suc k) fr"
  have sub: "set ?fr0 \<subseteq> set fr"
    using set_take_subset [of k fr] set_drop_subset [of "Suc k" fr] by auto
  have "(x, y, parent) \<in> set fr" using k e nth_mem [of k fr] by simp
  with ents have "entry_ok g (x, y, parent)" by blast
  then have int: "interior g (x, y)" "interior g parent"
    and lat: "lattice (x, y)" "lattice parent"
    and al: "parent = (x - 2, y) \<or> parent = (x + 2, y) \<or>
             parent = (x, y - 2) \<or> parent = (x, y + 2)"
    by (simp_all add: entry_ok_def)
  have xy: "(x, y) \<in> in_grid g" using int(1) by (rule interior_in_grid)
  from cell_in_grid [OF wf xy] obtain c where c: "cell (maze g) (x, y) = Some c" by blast
  show ?thesis
  proof (cases "c = Wall")
    case False
    have "carve_step g fr rs = Some (g, ?fr0, rs1)"
      using d e c False by (simp add: carve_step_def)
    moreover have "carving P0 g ?fr0"
      unfolding carving_def using wf dims st ents sub cells pth by blast
    moreover have "same_params g g" by (simp add: same_params_def)
    ultimately show ?thesis by blast
  next
    case True
    let ?mid = "((x + fst parent) div 2, (y + snd parent) div 2)"
    from midpoint_cases [OF al int lat(1)] have midint: "interior g ?mid"
      and midnl: "\<not> lattice ?mid" by simp_all
    have midg: "?mid \<in> in_grid g" using midint by (rule interior_in_grid)
    from two_writes [OF wf midg xy, of Open Open] obtain m1 m2 where
      m1: "set_cell (maze g) ?mid Open = Some m1"
      and m2: "set_cell m1 (x, y) Open = Some m2"
      and wf2: "well_formed (g\<lparr>maze := m2\<rparr>)"
      and c2: "\<forall>q \<in> in_grid g. cell m2 q =
              (if q = (x, y) then Some Open else if q = ?mid then Some Open
               else cell (maze g) q)"
      by blast
    let ?g' = "g\<lparr>maze := m2, path := path g @ [(x, y)]\<rparr>"
    have wf': "well_formed ?g'" using wf2 by (simp add: well_formed_def)
    from expand_spec [OF wf', of x y jumps] obtain es where
      es: "expand ?g' (x, y) jumps = Some es"
      and ses: "\<forall>e \<in> set es. \<exists>d \<in> set jumps. e = (x + fst d, y + snd d, (x, y)) \<and>
                             interior ?g' (x + fst d, y + snd d)"
      by blast
    have run: "carve_step g fr rs = Some (?g', ?fr0 @ es, rs1)"
      using d e c True m1 m2 es by (simp add: carve_step_def)
    have g: "in_grid ?g' = in_grid g" by (simp add: in_grid_def)
    have i: "interior ?g' p = interior g p" for p by (simp add: interior_def)
    have ne11: "(x, y) \<noteq> (1, 1)"
    proof
      assume "(x, y) = (1, 1)"
      with cells xy have "cell (maze g) (x, y) = Some PlayerStart" by auto
      with c True show False by simp
    qed
    have mid11: "?mid \<noteq> (1, 1)"
    proof
      assume "?mid = (1, 1)"
      then have "lattice ?mid" by (simp add: lattice_def)
      with midnl show False by simp
    qed
    have e1: "entry_ok ?g' e'" if "e' \<in> set ?fr0" for e'
    proof -
      from that sub ents have "entry_ok g e'" by blast
      then show ?thesis by (simp add: entry_ok_def interior_def)
    qed
    have l2: "(x + 2) mod 2 = 1" "(x - 2) mod 2 = 1" "(y + 2) mod 2 = 1" "(y - 2) mod 2 = 1"
      using lat(1) by (simp_all add: lattice_def)
    have e2: "entry_ok ?g' e'" if "e' \<in> set es" for e'
    proof -
      from ses that obtain dd where dd: "dd \<in> set jumps"
        "e' = (x + fst dd, y + snd dd, (x, y))" "interior ?g' (x + fst dd, y + snd dd)"
        by blast
      from dd(1) have "dd = (-2, 0) \<or> dd = (2, 0) \<or> dd = (0, -2) \<or> dd = (0, 2)"
        by (simp add: jumps_def)
      then show ?thesis
        using dd(2,3) int(1) lat(1) l2
        by (auto simp: entry_ok_def i lattice_def)
    qed
    have c3: "(\<not> interior ?g' p \<longrightarrow> cell (maze ?g') p = Some Wall) \<and>
        (cell (maze ?g') p = Some PlayerStart \<longleftrightarrow> p = (1, 1)) \<and>
        cell (maze ?g') p \<noteq> Some ExitDoor" if p: "p \<in> in_grid ?g'" for p
    proof -
      from p have pg: "p \<in> in_grid g" by (simp add: g)
      with c2 have cp: "cell m2 p =
              (if p = (x, y) then Some Open else if p = ?mid then Some Open
               else cell (maze g) p)" by blast
      from cells pg have old: "\<not> interior g p \<longrightarrow> cell (maze g) p = Some Wall"
        "cell (maze g) p = Some PlayerStart \<longleftrightarrow> p = (1, 1)"
        "cell (maze g) p \<noteq> Some ExitDoor" by blast+
      show ?thesis
      proof (cases "p = (x, y) \<or> p = ?mid")
        case True
        then have "cell m2 p = Some Open" using cp by auto
        moreover have "interior g p" using True int(1) midint by auto
        moreover have "p \<noteq> (1, 1)" using True ne11 mid11 by auto
        ultimately show ?thesis by (simp add: i)
      next
        case False
        then have "cell m2 p = cell (maze g) p" using cp by simp
        with old show ?thesis by (simp add: i)
      qed
    qed
    have "{p \<in> in_grid ?g'. cell (maze ?g') p = Some Open \<and> lattice p}
            = insert (x, y) {p \<in> in_grid g. cell (maze g) p = Some Open \<and> lattice p}"
      (is "?L = ?R")
    proof (intro set_eqI iffI)
      fix p
      assume "p \<in> ?L"
      then have pg: "p \<in> in_grid g" and o: "cell m2 p = Some Open" and l: "lattice p"
        by (simp_all add: g)
      from l midnl have "p \<noteq> ?mid" by auto
      with c2 pg have "cell m2 p = (if p = (x, y) then Some Open else cell (maze g) p)"
        by simp
      with o pg l show "p \<in> ?R" by (auto split: if_splits)
    next
      fix p
      assume pr: "p \<in> ?R"
      show "p \<in> ?L"
      proof (cases "p = (x, y)")
        case True
        with c2 xy lat(1) show ?thesis by (simp add: g)
      next
        case False
        with pr have pg: "p \<in> in_grid g" and o: "cell (maze g) p = Some Open"
          and l: "lattice p" by simp_all
        from l midnl have "p \<noteq> ?mid" by auto
        with c2 pg False have "cell m2 p = cell (maze g) p" by simp
        with pg o l show ?thesis by (simp add: g)
      qed
    qed
    then have p3: "set (path ?g') = set P0 \<union>
         {p \<in> in_grid ?g'. cell (maze ?g') p = Some Open \<and> lattice p}"
      using pth by simp
    have "carving P0 ?g' (?fr0 @ es)"
      unfolding carving_def
    proof (intro conjI)
      show "well_formed ?g'" by (rule wf')
      show "3 \<le> height ?g'" "3 \<le> width ?g'" "start ?g' = (1, 1)"
        using dims st by simp_all
      show "\<forall>e \<in> set (?fr0 @ es). entry_ok ?g' e" using e1 e2 by auto
      show "\<forall>p \<in> in_grid ?g'.
        (\<not> interior ?g' p \<longrightarrow> cell (maze ?g') p = Some Wall) \<and>
        (cell (maze ?g') p = Some PlayerStart \<longleftrightarrow> p = (1, 1)) \<and>
        cell (maze ?g') p \<noteq> Some ExitDoor" using c3 by blast
      show "set (path ?g') = set P0 \<union>
         {p \<in> in_grid ?g'. cell (maze ?g') p = Some Open \<and> lattice p}" by (rule p3)
    qed
    moreover have "same_params g ?g'" by (simp add: same_params_def)
    ultimately show ?thesis using run by blast
  qed
qed

lemma same_params_trans:
  "same_params g g1 \<Longrightarrow> same_params g1 g2 \<Longrightarrow> same_params g g2"
  by (simp add: same_params_def)

lemma carve_loop_carving:
  "carving P0 g fr \<Longrightarrow>
   \<exists>g' rs'. carve_loop g fr rs = Some (g', rs') \<and> carving P0 g' [] \<and> same_params g g'"
proof (induction g fr rs rule: carve_loop.induct)
  case (1 g fr rs)
  note inv = \<open>carving P0 g fr\<close>
  show ?case
  proof (cases "fr = []")
    case True
    have "carve_loop g fr rs = Some (g, rs)"
      using True by (subst carve_loop.simps) simp
    moreover have "same_params g g" by (simp add: same_params_def)
    ultimately show ?thesis using inv True by blast
  next
    case False
    from carve_step_carving [OF inv False, of rs] obtain g1 fr1 rs1 where
      st: "carve_step g fr rs = Some (g1, fr1, rs1)"
      and inv1: "carving P0 g1 fr1" and sp: "same_params g g1"
      by blast
    from "1.IH" [OF False st refl refl inv1] obtain g' rs' where
      r: "carve_loop g1 fr1 rs1 = Some (g', rs')" "carving P0 g' []" "same_params g1 g'"
      by blast
    have "carve_loop g fr rs = Some (g', rs')"
      using False st r(1) by (subst carve_loop.simps) simp
    with r(2) same_params_trans [OF sp r(3)] show ?thesis by blast
  qed
qed

lemma well_formed_fresh:
  "well_formed (g\<lparr>maze := replicate (nat (height g)) (replicate (nat (width g)) Wall)\<rparr>)"
  by (simp add: well_formed_def)

lemma cell_fresh:
  assumes "q \<in> in_grid g"
  shows "cell (replicate (nat (height g)) (replicate (nat (width g)) Wall)) q = Some Wall"
proof -
  let ?g0 = "g\<lparr>maze := replicate (nat (height g)) (replicate (nat (width g)) Wall)\<rparr>"
  have q: "q \<in> in_grid ?g0" using assms by simp
  have n: "norm_coord (maze ?g0) q = Some (nat (fst q), nat (snd q))"
    using well_formed_fresh q by (rule norm_coord_in_grid)
  from q have "nat (fst q) < nat (height g)" "nat (snd q) < nat (width g)"
    by (auto simp: in_grid_def)
  with n show ?thesis by (simp add: cell_def)
qed

lemma seed_frontier_ok:
  assumes "3 \<le> height g" "3 \<le> width g" "start g = (1, 1)"
  shows "\<forall>e \<in> set (seed_frontier g). entry_ok g e"
proof -
  have s: "interior g (1, 1)" using assms by (simp add: interior_def)
  show ?thesis
    using s by (auto simp: seed_frontier_def directions_def assms(3) entry_ok_def lattice_def)
qed

lemma carve_maze_carving:
  assumes "3 \<le> height g" "3 \<le> width g" "start g = (1, 1)"
  shows "\<exists>g2 rs'. carve_maze g rs = Some (g2, rs') \<and> carving (path g) g2 [] \<and>
           same_params g g2"
proof -
  let ?m0 = "replicate (nat (height g)) (replicate (nat (width g)) Wall)"
  let ?g0 = "g\<lparr>maze := ?m0\<rparr>"
  have wf0: "well_formed ?g0" by (rule well_formed_fresh)
  have s: "(1, 1) \<in> in_grid ?g0" using assms by (simp add: in_grid_def)
  from set_cell_in_grid [OF wf0 s, of PlayerStart] obtain m1 where
    m1: "set_cell ?m0 (1, 1) PlayerStart = Some m1" by auto
  let ?g1 = "g\<lparr>maze := m1\<rparr>"
  have wf1: "well_formed ?g1"
    using _ wf0 by (rule set_cell_well_formed [where g = ?g0 and p = "(1, 1)" and v = PlayerStart])
      (simp_all add: m1)
  have c1: "cell m1 q = (if q = (1, 1) then Some PlayerStart else Some Wall)"
    if "q \<in> in_grid g" for q
  proof -
    have "cell m1 q = (if q = (1, 1) then Some PlayerStart else cell (maze ?g0) q)"
      by (rule cell_set_cell [OF wf0]) (use s that m1 in simp_all)
    with cell_fresh [OF that] show ?thesis by simp
  qed
  have ents: "\<forall>e \<in> set (seed_frontier ?g1). entry_ok ?g1 e"
    by (rule seed_frontier_ok) (use assms in simp_all)
  have emp: "{p \<in> in_grid ?g1. cell (maze ?g1) p = Some Open \<and> lattice p} = {}"
    using c1 by (auto split: if_splits)
  have pth: "set (path ?g1) = set (path g) \<union>
      {p \<in> in_grid ?g1. cell (maze ?g1) p = Some Open \<and> lattice p}"
    unfolding emp by simp
  have cs: "\<forall>p \<in> in_grid ?g1.
        (\<not> interior ?g1 p \<longrightarrow> cell (maze ?g1) p = Some Wall) \<and>
        (cell (maze ?g1) p = Some PlayerStart \<longleftrightarrow> p = (1, 1)) \<and>
        cell (maze ?g1) p \<noteq> Some ExitDoor"
    using c1 assms by (auto simp: interior_def split: if_splits)
  have inv: "carving (path g) ?g1 (seed_frontier ?g1)"
    unfolding carving_def using wf1 assms ents cs pth by simp
  from carve_loop_carving [OF inv, of rs] obtain g2 rs' where
    r: "carve_loop ?g1 (seed_frontier ?g1) rs = Some (g2, rs')"
      "carving (path g) g2 []" "same_params ?g1 g2"
    by blast
  have "carve_maze g rs = Some (g2, rs')"
    using m1 r(1) by (simp add: carve_maze_def assms(3))
  moreover have "same_params g g2" using r(3) by (simp add: same_params_def)
  ultimately show ?thesis using r(2) by blast
qed

section \<open>Invariants of a generated grid\<close>

text \<open>
  \<open>params_ok\<close>: the size is at least 3 by 3 and the start and the exit are where the
  constructor puts them. \<open>good g\<close>: moreover the grid has the size, its border is all
  walls, the door stands at the exit and nowhere else, and the player stands at the
  start and nowhere else (unless the start is the exit, where the door replaced it).
\<close>

definition params_ok :: "generator \<Rightarrow> bool" where
  "params_ok g \<longleftrightarrow>
     3 \<le> height g \<and> 3 \<le> width g \<and> start g = (1, 1) \<and>
     exit g = (height g - 2, width g - 2)"

definition good :: "generator \<Rightarrow> bool" where
  "good g \<longleftrightarrow>
     well_formed g \<and> params_ok g \<and>
     (\<forall>p \<in> in_grid g.
        (\<not> interior g p \<longrightarrow> cell (maze g) p = Some Wall) \<and>
        (cell (maze g) p = Some PlayerStart \<longleftrightarrow> p = (1, 1) \<and> exit g \<noteq> (1, 1)) \<and>
        (cell (maze g) p = Some ExitDoor \<longleftrightarrow> p = exit g))"

lemma params_ok_same: "same_params g g' \<Longrightarrow> params_ok g \<Longrightarrow> params_ok g'"
  by (simp add: same_params_def params_ok_def)

lemma params_ok_points:
  assumes "params_ok g"
  shows "interior g (start g)" "interior g (exit g)"
  using assms by (simp_all add: params_ok_def interior_def)

lemma same_params_maze: "g' = g\<lparr>maze := m\<rparr> \<Longrightarrow> same_params g g'"
  by (simp add: same_params_def)

lemma generate_base_maze_good:
  assumes "params_ok g"
  shows "\<exists>g' rs'. generate_base_maze g rs = Some (g', rs') \<and> good g' \<and> same_params g g'"
proof -
  from assms have a: "3 \<le> height g" "3 \<le> width g" "start g = (1, 1)"
    by (simp_all add: params_ok_def)
  from carve_maze_carving [OF a, of rs] obtain g2 rs' where
    cm: "carve_maze g rs = Some (g2, rs')" and inv: "carving (path g) g2 []"
    and sp: "same_params g g2" by blast
  from inv have wf: "well_formed g2"
    and cells: "\<forall>p \<in> in_grid g2.
        (\<not> interior g2 p \<longrightarrow> cell (maze g2) p = Some Wall) \<and>
        (cell (maze g2) p = Some PlayerStart \<longleftrightarrow> p = (1, 1)) \<and>
        cell (maze g2) p \<noteq> Some ExitDoor"
    by (simp_all add: carving_def)
  have po: "params_ok g2" using sp assms by (rule params_ok_same)
  have ei: "interior g2 (exit g2)" using po by (rule params_ok_points)
  then have eg: "exit g2 \<in> in_grid g2" by (rule interior_in_grid)
  from set_cell_in_grid [OF wf eg, of ExitDoor] obtain m3 where
    m3: "set_cell (maze g2) (exit g2) ExitDoor = Some m3" by blast
  let ?g' = "g2\<lparr>maze := m3\<rparr>"
  have wf': "well_formed ?g'"
    using m3 wf by (rule set_cell_well_formed) simp_all
  have po': "params_ok ?g'" using po by (simp add: params_ok_def)
  have c3: "(\<not> interior ?g' p \<longrightarrow> cell (maze ?g') p = Some Wall) \<and>
        (cell (maze ?g') p = Some PlayerStart \<longleftrightarrow> p = (1, 1) \<and> exit ?g' \<noteq> (1, 1)) \<and>
        (cell (maze ?g') p = Some ExitDoor \<longleftrightarrow> p = exit ?g')" if "p \<in> in_grid ?g'" for p
  proof -
    from that have pg: "p \<in> in_grid g2" by simp
    have cp: "cell m3 p = (if p = exit g2 then Some ExitDoor else cell (maze g2) p)"
      using wf eg pg m3 by (rule cell_set_cell)
    from cells pg have old: "\<not> interior g2 p \<longrightarrow> cell (maze g2) p = Some Wall"
      "cell (maze g2) p = Some PlayerStart \<longleftrightarrow> p = (1, 1)"
      "cell (maze g2) p \<noteq> Some ExitDoor" by blast+
    have i: "interior ?g' q = interior g2 q" for q by (simp add: interior_def)
    show ?thesis
    proof (cases "p = exit g2")
      case True
      with cp ei show ?thesis by (simp add: i)
    next
      case False
      with cp old show ?thesis by (auto simp: i)
    qed
  qed
  have "good ?g'" unfolding good_def using wf' po' c3 by blast
  moreover have "generate_base_maze g rs = Some (?g', rs')"
    using cm m3 by (simp add: generate_base_maze_def)
  moreover have "same_params g ?g'" using sp by (simp add: same_params_def)
  ultimately show ?thesis by blast
qed

lemma add_safe_walls_good:
  assumes "good g" and run: "add_safe_walls g rs = Some (g', rs')"
  shows "good g' \<and> same_params g g' \<and>
           (validate_maze g = Some True \<longrightarrow> validate_maze g' = Some True)"
proof -
  from assms have wf: "well_formed g" and po: "params_ok g"
    and cells: "\<forall>p \<in> in_grid g.
        (\<not> interior g p \<longrightarrow> cell (maze g) p = Some Wall) \<and>
        (cell (maze g) p = Some PlayerStart \<longleftrightarrow> p = (1, 1) \<and> exit g \<noteq> (1, 1)) \<and>
        (cell (maze g) p = Some ExitDoor \<longleftrightarrow> p = exit g)"
    by (simp_all add: good_def)
  from add_safe_walls_safe [OF wf run] have
    wf': "well_formed g'" and frame: "g' = g\<lparr>maze := maze g'\<rparr>"
    and v: "validate_maze g = Some True \<longrightarrow> validate_maze g' = Some True"
    and ch: "\<forall>q \<in> in_grid g. cell (maze g') q = cell (maze g) q \<or>
              (interior g q \<and> cell (maze g) q = Some Open \<and> cell (maze g') q = Some Wall)"
    by blast+
  have sp: "same_params g g'" using frame by (rule same_params_maze)
  then have po': "params_ok g'" using po by (rule params_ok_same)
  from sp have g: "in_grid g' = in_grid g" and e: "exit g' = exit g"
    and i: "\<And>p. interior g' p = interior g p"
    by (simp_all add: same_params_def in_grid_def interior_def)
  have c3: "(\<not> interior g' p \<longrightarrow> cell (maze g') p = Some Wall) \<and>
        (cell (maze g') p = Some PlayerStart \<longleftrightarrow> p = (1, 1) \<and> exit g' \<noteq> (1, 1)) \<and>
        (cell (maze g') p = Some ExitDoor \<longleftrightarrow> p = exit g')" if "p \<in> in_grid g'" for p
  proof -
    from that have pg: "p \<in> in_grid g" by (simp add: g)
    from cells pg have old: "\<not> interior g p \<longrightarrow> cell (maze g) p = Some Wall"
      "cell (maze g) p = Some PlayerStart \<longleftrightarrow> p = (1, 1) \<and> exit g \<noteq> (1, 1)"
      "cell (maze g) p = Some ExitDoor \<longleftrightarrow> p = exit g" by blast+
    from ch pg have "cell (maze g') p = cell (maze g) p \<or>
              (interior g p \<and> cell (maze g) p = Some Open \<and> cell (maze g') p = Some Wall)"
      by blast
    then show ?thesis
    proof
      assume "cell (maze g') p = cell (maze g) p"
      with old show ?thesis by (simp add: i e)
    next
      assume a: "interior g p \<and> cell (maze g) p = Some Open \<and> cell (maze g') p = Some Wall"
      with old have "\<not> (p = (1, 1) \<and> exit g \<noteq> (1, 1))" "p \<noteq> exit g" by auto
      with a show ?thesis by (simp add: i e)
    qed
  qed
  have "good g'" unfolding good_def using wf' po' c3 by blast
  with sp v show ?thesis by blast
qed

lemma comb_spec:
  assumes "well_formed g" "set ps \<subseteq> in_grid g"
  shows "\<exists>m'. comb (maze g) ps = Some m' \<and> well_formed (g\<lparr>maze := m'\<rparr>) \<and>
           (\<forall>q \<in> in_grid g. cell m' q =
              (if q \<in> set ps \<and> lattice q then Some Open else cell (maze g) q))"
  using assms
proof (induction ps arbitrary: g)
  case Nil
  then show ?case by simp
next
  case (Cons p ps)
  obtain i j where p: "p = (i, j)" by (cases p)
  from Cons.prems have pg: "p \<in> in_grid g" and ps: "set ps \<subseteq> in_grid g" by simp_all
  show ?case
  proof (cases "lattice p")
    case True
    from set_cell_in_grid [OF Cons.prems(1) pg, of Open] obtain m1 where
      m1: "set_cell (maze g) p Open = Some m1" by blast
    let ?g1 = "g\<lparr>maze := m1\<rparr>"
    have wf1: "well_formed ?g1"
      using m1 Cons.prems(1) by (rule set_cell_well_formed) simp_all
    have "set ps \<subseteq> in_grid ?g1" using ps by simp
    from Cons.IH [OF wf1 this] obtain m' where
      r: "comb m1 ps = Some m'" "well_formed (g\<lparr>maze := m'\<rparr>)"
        "\<forall>q \<in> in_grid g. cell m' q =
              (if q \<in> set ps \<and> lattice q then Some Open else cell m1 q)"
      by auto
    have run: "comb (maze g) (p # ps) = Some m'"
      using True m1 r(1) by (simp add: p lattice_def)
    have "cell m' q = (if q \<in> set (p # ps) \<and> lattice q then Some Open else cell (maze g) q)"
      if q: "q \<in> in_grid g" for q
    proof -
      have "cell m1 q = (if q = p then Some Open else cell (maze g) q)"
        using Cons.prems(1) pg q m1 by (rule cell_set_cell)
      with r(3) q True show ?thesis by auto
    qed
    with run r(2) show ?thesis by blast
  next
    case False
    from Cons.IH [OF Cons.prems(1) ps] obtain m' where
      r: "comb (maze g) ps = Some m'" "well_formed (g\<lparr>maze := m'\<rparr>)"
        "\<forall>q \<in> in_grid g. cell m' q =
              (if q \<in> set ps \<and> lattice q then Some Open else cell (maze g) q)"
      by blast
    have run: "comb (maze g) (p # ps) = Some m'"
      using False r(1) by (auto simp: p lattice_def)
    have "\<forall>q \<in> in_grid g. cell m' q =
        (if q \<in> set (p # ps) \<and> lattice q then Some Open else cell (maze g) q)"
      using r(3) False by auto
    with run r(2) show ?thesis by blast
  qed
qed

lemma generate_fallback_maze_spec:
  assumes "well_formed g" "start g \<in> in_grid g" "exit g \<in> in_grid g"
  shows "\<exists>g'. generate_fallback_maze g = Some g' \<and> g' = g\<lparr>maze := maze g'\<rparr> \<and>
           well_formed g' \<and>
           (\<forall>q \<in> in_grid g. cell (maze g') q =
              (if q = exit g then Some ExitDoor
               else if q = start g then Some PlayerStart
               else if interior g q \<and> lattice q then Some Open
               else cell (maze g) q))"
proof -
  have sub: "set (interior_cells g) \<subseteq> in_grid g"
    using interior_cells_iff interior_in_grid by blast
  from comb_spec [OF assms(1) sub] obtain m1 where
    m1: "comb (maze g) (interior_cells g) = Some m1"
    and wf1: "well_formed (g\<lparr>maze := m1\<rparr>)"
    and c1: "\<forall>q \<in> in_grid g. cell m1 q =
              (if q \<in> set (interior_cells g) \<and> lattice q then Some Open
               else cell (maze g) q)"
    by blast
  let ?g1 = "g\<lparr>maze := m1\<rparr>"
  have s1: "start g \<in> in_grid ?g1" "exit g \<in> in_grid ?g1" using assms(2,3) by simp_all
  from two_writes [OF wf1 s1, of PlayerStart ExitDoor] obtain m2 m3 where
    m2: "set_cell m1 (start g) PlayerStart = Some m2"
    and m3: "set_cell m2 (exit g) ExitDoor = Some m3"
    and wf3: "well_formed (g\<lparr>maze := m3\<rparr>)"
    and c3: "\<forall>q \<in> in_grid g. cell m3 q =
              (if q = exit g then Some ExitDoor else if q = start g then Some PlayerStart
               else cell m1 q)"
    by auto
  have run: "generate_fallback_maze g = Some (g\<lparr>maze := m3\<rparr>)"
    using m1 m2 m3 by (simp add: generate_fallback_maze_def)
  have "\<forall>q \<in> in_grid g. cell m3 q =
              (if q = exit g then Some ExitDoor
               else if q = start g then Some PlayerStart
               else if interior g q \<and> lattice q then Some Open
               else cell (maze g) q)"
    using c1 c3 by (simp add: interior_cells_iff)
  with run wf3 show ?thesis by simp
qed

lemma generate_fallback_maze_good:
  assumes "good g"
  shows "\<exists>g'. generate_fallback_maze g = Some g' \<and> good g' \<and> same_params g g'"
proof -
  from assms have wf: "well_formed g" and po: "params_ok g"
    and cells: "\<forall>p \<in> in_grid g.
        (\<not> interior g p \<longrightarrow> cell (maze g) p = Some Wall) \<and>
        (cell (maze g) p = Some PlayerStart \<longleftrightarrow> p = (1, 1) \<and> exit g \<noteq> (1, 1)) \<and>
        (cell (maze g) p = Some ExitDoor \<longleftrightarrow> p = exit g)"
    by (simp_all add: good_def)
  from po have st: "start g = (1, 1)" by (simp add: params_ok_def)
  note si = params_ok_points [OF po]
  have sg: "start g \<in> in_grid g" "exit g \<in> in_grid g"
    using si by (simp_all add: interior_in_grid)
  from generate_fallback_maze_spec [OF wf sg] obtain g' where
    run: "generate_fallback_maze g = Some g'" and frame: "g' = g\<lparr>maze := maze g'\<rparr>"
    and wf': "well_formed g'"
    and c: "\<forall>q \<in> in_grid g. cell (maze g') q =
              (if q = exit g then Some ExitDoor
               else if q = start g then Some PlayerStart
               else if interior g q \<and> lattice q then Some Open
               else cell (maze g) q)"
    by blast
  have sp: "same_params g g'" using frame by (rule same_params_maze)
  then have po': "params_ok g'" using po by (rule params_ok_same)
  from sp have g: "in_grid g' = in_grid g" and e: "exit g' = exit g"
    and i: "\<And>p. interior g' p = interior g p"
    by (simp_all add: same_params_def in_grid_def interior_def)
  have c3: "(\<not> interior g' p \<longrightarrow> cell (maze g') p = Some Wall) \<and>
        (cell (maze g') p = Some PlayerStart \<longleftrightarrow> p = (1, 1) \<and> exit g' \<noteq> (1, 1)) \<and>
        (cell (maze g') p = Some ExitDoor \<longleftrightarrow> p = exit g')" if "p \<in> in_grid g'" for p
  proof -
    from that have pg: "p \<in> in_grid g" by (simp add: g)
    from cells pg have old: "\<not> interior g p \<longrightarrow> cell (maze g) p = Some Wall"
      "cell (maze g) p = Some PlayerStart \<longleftrightarrow> p = (1, 1) \<and> exit g \<noteq> (1, 1)"
      "cell (maze g) p = Some ExitDoor \<longleftrightarrow> p = exit g" by blast+
    from c pg have cp: "cell (maze g') p =
              (if p = exit g then Some ExitDoor
               else if p = start g then Some PlayerStart
               else if interior g p \<and> lattice p then Some Open
               else cell (maze g) p)" by blast
    show ?thesis
      using cp old si by (auto simp: i e st split: if_splits)
  qed
  have "good g'" unfolding good_def using wf' po' c3 by blast
  with run sp show ?thesis by blast
qed

lemma same_params_refl: "same_params g g"
  by (simp add: same_params_def)

text \<open>The difficulty is a finite float in \<open>[0, 1]\<close>.\<close>

definition unit_difficulty :: "generator \<Rightarrow> bool" where
  "unit_difficulty g \<longleftrightarrow> (\<exists>q. difficulty g = Finite q \<and> 0 \<le> q \<and> q \<le> 1)"

lemma unit_difficulty_same: "same_params g g' \<Longrightarrow> unit_difficulty g \<Longrightarrow> unit_difficulty g'"
  by (simp add: same_params_def unit_difficulty_def)

lemma attempts_good:
  assumes "params_ok g" "n = 0 \<longrightarrow> good g"
    and "attempts n k g rs = Some (g', rs', returned, k')"
  shows "good g' \<and> same_params g g' \<and> k' \<le> k + n \<and>
           (returned \<longrightarrow> validate_maze g' = Some True)"
  using assms
proof (induction n arbitrary: k g rs)
  case 0
  then show ?case by (auto simp: same_params_refl)
next
  case (Suc n)
  note run = \<open>attempts (Suc n) k g rs = Some (g', rs', returned, k')\<close>
  from generate_base_maze_good [OF Suc.prems(1), of rs] obtain g1 rs1 where
    b: "generate_base_maze g rs = Some (g1, rs1)" and g1: "good g1"
    and sp1: "same_params g g1" by blast
  from g1 have wf1: "well_formed g1" and po1: "params_ok g1" by (simp_all add: good_def)
  from validate_maze_total [OF wf1] obtain v1 where v1: "validate_maze g1 = Some v1" by blast
  show ?case
  proof (cases v1)
    case False
    have rec: "attempts n (Suc k) g1 rs1 = Some (g', rs', returned, k')"
      using run b v1 False by simp
    have "n = 0 \<longrightarrow> good g1" using g1 by simp
    from Suc.IH [OF po1 this rec] have
      r: "good g'" "same_params g1 g'" "k' \<le> Suc k + n"
        "returned \<longrightarrow> validate_maze g' = Some True"
      by simp_all
    have "same_params g g'" using sp1 r(2) by (rule same_params_trans)
    moreover have "k' \<le> k + Suc n" using r(3) by simp
    ultimately show ?thesis using r(1,4) by blast
  next
    case True
    obtain g2 rs2 where a: "add_safe_walls g1 rs1 = Some (g2, rs2)"
      using run b v1 True by (cases "add_safe_walls g1 rs1") auto
    from add_safe_walls_good [OF g1 a] have g2: "good g2" and sp2: "same_params g1 g2"
      by simp_all
    from g2 have wf2: "well_formed g2" and po2: "params_ok g2" by (simp_all add: good_def)
    from validate_maze_total [OF wf2] obtain v2 where v2: "validate_maze g2 = Some v2" by blast
    have sp: "same_params g g2" using sp1 sp2 by (rule same_params_trans)
    show ?thesis
    proof (cases v2)
      case T2: True
      have "(g', rs', returned, k') = (g2, rs2, True, Suc k)"
        using run b v1 True a v2 T2 by simp
      then have e: "g' = g2" "returned = True" "k' = Suc k" by simp_all
      have "validate_maze g2 = Some True" using v2 T2 by simp
      with g2 sp show ?thesis by (simp add: e)
    next
      case F2: False
      have rec: "attempts n (Suc k) g2 rs2 = Some (g', rs', returned, k')"
        using run b v1 True a v2 F2 by simp
      have "n = 0 \<longrightarrow> good g2" using g2 by simp
      from Suc.IH [OF po2 this rec] have
        r: "good g'" "same_params g2 g'" "k' \<le> Suc k + n"
          "returned \<longrightarrow> validate_maze g' = Some True"
        by simp_all
      have "same_params g g'" using sp r(2) by (rule same_params_trans)
      moreover have "k' \<le> k + Suc n" using r(3) by simp
      ultimately show ?thesis using r(1,4) by blast
    qed
  qed
qed

lemma attempts_total:
  assumes "params_ok g" "unit_difficulty g"
  shows "attempts n k g rs \<noteq> None"
  using assms
proof (induction n arbitrary: k g rs)
  case 0
  show ?case by simp
next
  case (Suc n)
  from generate_base_maze_good [OF Suc.prems(1), of rs] obtain g1 rs1 where
    b: "generate_base_maze g rs = Some (g1, rs1)" and g1: "good g1"
    and sp1: "same_params g g1" by blast
  from g1 have wf1: "well_formed g1" and po1: "params_ok g1" by (simp_all add: good_def)
  have ud1: "unit_difficulty g1" using sp1 Suc.prems(2) by (rule unit_difficulty_same)
  from validate_maze_total [OF wf1] obtain v1 where v1: "validate_maze g1 = Some v1" by blast
  show ?case
  proof (cases v1)
    case False
    from Suc.IH [OF po1 ud1, of "Suc k" rs1]
    have "attempts n (Suc k) g1 rs1 \<noteq> None" .
    then show ?thesis using b v1 False by simp
  next
    case True
    from ud1 obtain q where q: "difficulty g1 = Finite q" "0 \<le> q" "q \<le> 1"
      by (auto simp: unit_difficulty_def)
    from add_safe_walls_total [OF wf1 q, of rs1] obtain g2 rs2 where
      a: "add_safe_walls g1 rs1 = Some (g2, rs2)" by blast
    from add_safe_walls_good [OF g1 a] have g2: "good g2" and sp2: "same_params g1 g2"
      by simp_all
    from g2 have wf2: "well_formed g2" and po2: "params_ok g2" by (simp_all add: good_def)
    have ud2: "unit_difficulty g2" using sp2 ud1 by (rule unit_difficulty_same)
    from validate_maze_total [OF wf2] obtain v2 where v2: "validate_maze g2 = Some v2" by blast
    show ?thesis
    proof (cases v2)
      case T2: True
      then show ?thesis using b v1 True a v2 by simp
    next
      case F2: False
      from Suc.IH [OF po2 ud2, of "Suc k" rs2]
      have "attempts n (Suc k) g2 rs2 \<noteq> None" .
      then show ?thesis using b v1 True a v2 F2 by simp
    qed
  qed
qed

lemma params_ok_init: "3 \<le> w \<Longrightarrow> 3 \<le> h \<Longrightarrow> params_ok (init w h d)"
  by (simp add: params_ok_def init_def)

lemma unit_difficulty_init: "0 \<le> q \<Longrightarrow> q \<le> 1 \<Longrightarrow> unit_difficulty (init w h (Finite q))"
  by (simp add: unit_difficulty_def init_def)

lemma generate_self_good:
  assumes "params_ok g" "unit_difficulty g"
  shows "\<exists>g' k. generate_self g rs = Some (g', k) \<and> good g' \<and> same_params g g' \<and>
           k \<le> max_attempts"
proof -
  from attempts_total [OF assms, of max_attempts 0 rs] obtain r where
    "attempts max_attempts 0 g rs = Some r" by blast
  then obtain g1 rs1 returned k where
    a: "attempts max_attempts 0 g rs = Some (g1, rs1, returned, k)"
    by (cases r) simp
  have "max_attempts = 0 \<longrightarrow> good g" by (simp add: max_attempts_def)
  from attempts_good [OF assms(1) this a] have g1: "good g1"
    and sp1: "same_params g g1" and k: "k \<le> max_attempts"
    by simp_all
  show ?thesis
  proof (cases returned)
    case True
    with a have "generate_self g rs = Some (g1, k)" by (simp add: generate_self_def)
    with g1 sp1 k show ?thesis by blast
  next
    case False
    from generate_fallback_maze_good [OF g1] obtain g2 where
      f: "generate_fallback_maze g1 = Some g2" and g2: "good g2"
      and sp2: "same_params g1 g2" by blast
    from a False f have "generate_self g rs = Some (g2, k)"
      by (simp add: generate_self_def)
    moreover have "same_params g g2" using sp1 sp2 by (rule same_params_trans)
    ultimately show ?thesis using g2 k by blast
  qed
qed

text \<open>The number of cells of a grid that carry a given marker.\<close>

definition count_marker :: "grid \<Rightarrow> marker \<Rightarrow> nat" where
  "count_marker m c = sum_list (map (\<lambda>row. count_list row c) m)"

lemma count_marker_update:
  assumes "i < length m" "j < length (m ! i)"
  shows "count_marker (m[i := (m ! i)[j := v]]) c + (if m ! i ! j = c then 1 else 0)
           = count_marker m c + (if v = c then 1 else 0)"
proof -
  let ?f = "\<lambda>row. count_list row c"
  have "count_marker (m[i := (m ! i)[j := v]]) c + ?f (m ! i)
          = count_marker m c + ?f ((m ! i)[j := v])"
    unfolding count_marker_def using assms(1) by (rule sum_list_map_update)
  moreover have "?f ((m ! i)[j := v]) + (if m ! i ! j = c then 1 else 0)
                   = ?f (m ! i) + (if v = c then 1 else 0)"
    using assms(2) by (rule count_list_update)
  ultimately show ?thesis by linarith
qed

lemma count_marker_none:
  assumes "\<forall>i < length m. \<forall>j < length (m ! i). m ! i ! j \<noteq> c"
  shows "count_marker m c = 0"
proof -
  have "count_list row c = 0" if "row \<in> set m" for row
  proof -
    from that obtain i where i: "i < length m" "row = m ! i"
      by (auto simp: in_set_conv_nth)
    have "c \<notin> set row"
    proof
      assume "c \<in> set row"
      then obtain j where "j < length row" "row ! j = c"
        by (auto simp: in_set_conv_nth)
      with i assms show False by auto
    qed
    then show ?thesis by (simp add: count_list_0_iff)
  qed
  then show ?thesis by (simp add: count_marker_def)
qed

lemma count_marker_unique:
  assumes wf: "well_formed g" and p: "p \<in> in_grid g"
    and u: "\<forall>q \<in> in_grid g. cell (maze g) q = Some c \<longleftrightarrow> q = p"
  shows "count_marker (maze g) c = 1"
proof -
  let ?m = "maze g"
  let ?i = "nat (fst p)" and ?j = "nat (snd p)"
  obtain v where v: "v \<noteq> c" by (cases c) auto
  have np: "norm_coord ?m p = Some (?i, ?j)" using wf p by (rule norm_coord_in_grid)
  then have l: "?i < length ?m" "?j < length (?m ! ?i)" using norm_coord_less by blast+
  from u p have "cell ?m p = Some c" by blast
  with np have here: "?m ! ?i ! ?j = c" by (simp add: cell_def)
  let ?m' = "?m[?i := (?m ! ?i)[?j := v]]"
  have "?m' ! a ! b \<noteq> c" if a: "a < length ?m'" and b: "b < length (?m' ! a)" for a b
  proof -
    from a have a': "a < length ?m" by simp
    have "length (?m' ! a) = length (?m ! a)" using a' by (cases "a = ?i") simp_all
    with b have b': "b < length (?m ! a)" by simp
    have eq: "?m' ! a ! b = (if (a, b) = (?i, ?j) then v else ?m ! a ! b)"
      using l a' b' by (rule nth_nth_update)
    show ?thesis
    proof (cases "(a, b) = (?i, ?j)")
      case True
      with eq v show ?thesis by simp
    next
      case False
      have "?m ! a \<in> set ?m" using a' by simp
      with wf have "length (?m ! a) = nat (width g)" by (simp add: well_formed_def)
      with a' b' wf have "a < nat (height g)" "b < nat (width g)"
        by (simp_all add: well_formed_def)
      then have q: "(int a, int b) \<in> in_grid g"
        by (simp add: in_grid_def) linarith
      have "norm_coord ?m (int a, int b) = Some (a, b)"
        using norm_coord_in_grid [OF wf q] by simp
      then have cq: "cell ?m (int a, int b) = Some (?m ! a ! b)" by (simp add: cell_def)
      have "(int a, int b) \<noteq> p"
      proof
        assume "(int a, int b) = p"
        then have "(a, b) = (?i, ?j)" by auto
        with False show False by simp
      qed
      with u q cq have "?m ! a ! b \<noteq> c" by auto
      with eq False show ?thesis by auto
    qed
  qed
  then have "count_marker ?m' c = 0" by (intro count_marker_none) blast
  with count_marker_update [OF l, of v c] here v show ?thesis by simp
qed


section \<open>Claims about the reachability check\<close>

text \<open>
  C6. On a well-formed generator \<^verbatim>\<open>_validate_maze\<close> returns, without raising, and its
  answer is true exactly when the exit is reachable from the start by steps up, down,
  left and right (no diagonals) into cells that are not walls. When the start equals the
  exit it answers true at once, whatever the grid.
\<close>

theorem validate_maze_decides_reachability:
  "(well_formed g \<longrightarrow> validate_maze g = Some (reachable g (start g) (exit g))) \<and>
   (start g = exit g \<longrightarrow> validate_maze g = Some True)"
  by (simp add: validate_maze_correct validate_maze_same)

theorem validate_maze_decides_reachability_witness:
  "reachable
     \<lparr>width = 4, height = 3, difficulty = Finite 0,
       maze = [[Wall, Wall, Wall, Wall], [Wall, PlayerStart, ExitDoor, Wall], [Wall, Wall, Wall, Wall]],
       start = (1, 1), exit = (1, 2), path = []\<rparr> (1, 1) (1, 2) \<and>
   \<not> reachable
     \<lparr>width = 4, height = 4, difficulty = Finite 0,
       maze = [[Wall, Wall, Wall, Wall], [Wall, PlayerStart, Wall, Wall],
               [Wall, Wall, ExitDoor, Wall], [Wall, Wall, Wall, Wall]],
       start = (1, 1), exit = (2, 2), path = []\<rparr> (1, 1) (2, 2) \<and>
   validate_maze (init 3 3 (Finite 0)) = Some True"
proof -
  let ?g = "\<lparr>width = 4, height = 3, difficulty = Finite 0,
       maze = [[Wall, Wall, Wall, Wall], [Wall, PlayerStart, ExitDoor, Wall], [Wall, Wall, Wall, Wall]],
       start = (1, 1), exit = (1, 2), path = []\<rparr>"
  let ?h = "\<lparr>width = 4, height = 4, difficulty = Finite 0,
       maze = [[Wall, Wall, Wall, Wall], [Wall, PlayerStart, Wall, Wall],
               [Wall, Wall, ExitDoor, Wall], [Wall, Wall, Wall, Wall]],
       start = (1, 1), exit = (2, 2), path = []\<rparr>"
  have wg: "well_formed ?g" by (simp add: well_formed_def)
  have vg: "validate_maze ?g = Some True" by code_simp
  have wh: "well_formed ?h" by (simp add: well_formed_def)
  have vh: "validate_maze ?h = Some False" by code_simp
  have e: "start (init 3 3 (Finite 0)) = exit (init 3 3 (Finite 0))" by (simp add: init_def)
  from validate_maze_decides_reachability [of ?g] wg vg
  have 1: "reachable ?g (1, 1) (1, 2)" by simp
  from validate_maze_decides_reachability [of ?h] wh vh
  have 2: "\<not> reachable ?h (1, 1) (2, 2)" by simp
  from validate_maze_decides_reachability [of "init 3 3 (Finite 0)"] e
  have 3: "validate_maze (init 3 3 (Finite 0)) = Some True" by blast
  from 1 2 3 show ?thesis by blast
qed

section \<open>Claims about obstacle injection\<close>

lemma wall_loop_count:
  "wall_loop g wc a ps = Some (g', a') \<Longrightarrow>
   a \<le> a' \<and> a' \<le> max a wc \<and> a' \<le> a + int (length ps)"
proof (induction ps arbitrary: g a)
  case Nil
  then show ?case by simp
next
  case (Cons p ps)
  show ?case
  proof (cases "a \<ge> wc")
    case True
    with Cons.prems show ?thesis by simp
  next
    case False
    with Cons.prems obtain g1 a1 where
      rec: "wall_loop g1 wc a1 ps = Some (g', a')" and a1: "a1 = a \<or> a1 = a + 1"
      by (auto split: option.splits bool.splits)
    from Cons.IH [OF rec] a1 False show ?thesis by auto
  qed
qed

lemma shuffle_down_length: "length (fst (shuffle_down i xs rs)) = length xs"
proof (induction i arbitrary: xs rs)
  case 0
  then show ?case by simp
next
  case (Suc i)
  then show ?case by (simp split: prod.splits)
qed

lemma shuffle_length: "shuffle xs rs = (ys, rs') \<Longrightarrow> length ys = length xs"
  using shuffle_down_length [of "length xs - 1" xs rs] by (simp add: shuffle_def)

lemma wall_count_bounds:
  assumes "difficulty g = Finite q" "0 \<le> q" "q \<le> 1"
    and "add_safe_walls_locals g rs = Some (g', n, wall_count, added_walls, rs')"
  shows "wall_count_of n (Finite q) = Some wall_count \<and> added_walls \<le> wall_count \<and>
         added_walls \<le> int n"
proof -
  from add_safe_walls_locals_parts [OF assms(4)] obtain cs where
    cs: "candidates g (interior_cells g) = Some cs" and n: "n = length cs"
    and w: "wall_count_of (length cs) (difficulty g) = Some wall_count" by blast
  from assms(4) obtain shuffled where
    sh: "shuffle cs rs = (shuffled, rs')"
    and wl: "wall_loop g wall_count 0 shuffled = Some (g', added_walls)"
    by (auto simp: add_safe_walls_locals_def cs w split: option.splits prod.splits)
  from wall_count_of_unit [OF assms(2,3), of n] w have w0: "0 \<le> wall_count"
    by (auto simp: n assms(1))
  from shuffle_length [OF sh] have l: "length shuffled = n" by (simp add: n)
  from wall_loop_count [OF wl] w0 l have "added_walls \<le> wall_count" "added_walls \<le> int n"
    by simp_all
  with w show ?thesis by (simp add: n assms(1))
qed

text \<open>
  C7 (amended). On a well-formed generator with a difficulty in \<open>[0, 1]\<close>,
  \<^verbatim>\<open>_add_safe_walls\<close> returns; with \<open>n\<close> candidates its \<^verbatim>\<open>wall_count\<close> is the integer part
  of the float product of \<open>n\<close> and the difficulty, a product rounded to the nearest float,
  and the number of walls it counted as placed is at most \<^verbatim>\<open>wall_count\<close> and at most \<open>n\<close>.
\<close>

theorem added_walls_bound:
  assumes "well_formed g" "difficulty g = Finite q" "0 \<le> q" "q \<le> 1"
  shows "\<exists>g' n wall_count added_walls rs'.
           add_safe_walls_locals g rs = Some (g', n, wall_count, added_walls, rs') \<and>
           py_int (to_float (float_of_len n * q)) = Some wall_count \<and>
           added_walls \<le> wall_count \<and> added_walls \<le> int n"
proof -
  from add_safe_walls_locals_total [OF assms, of rs] obtain g' n wc a rs' where
    run: "add_safe_walls_locals g rs = Some (g', n, wc, a, rs')" by blast
  from wall_count_bounds [OF assms(2,3,4) run]
  have "py_int (to_float (float_of_len n * q)) = Some wc" "a \<le> wc" "a \<le> int n"
    by (simp_all add: wall_count_of_def)
  with run show ?thesis by blast
qed

theorem added_walls_bound_witness:
  "add_safe_walls_locals
     \<lparr>width = 5, height = 5, difficulty = Finite (1 / 2),
       maze = [[Wall, Wall, Wall, Wall, Wall],
               [Wall, PlayerStart, Open, Open, Wall],
               [Wall, Open, Wall, Open, Wall],
               [Wall, Open, Open, ExitDoor, Wall],
               [Wall, Wall, Wall, Wall, Wall]],
       start = (1, 1), exit = (3, 3), path = [(1, 3), (3, 1), (3, 3)]\<rparr> [1, 0, 2]
     = Some (\<lparr>width = 5, height = 5, difficulty = Finite (1 / 2),
       maze = [[Wall, Wall, Wall, Wall, Wall],
               [Wall, PlayerStart, Open, Open, Wall],
               [Wall, Wall, Wall, Open, Wall],
               [Wall, Open, Wall, ExitDoor, Wall],
               [Wall, Wall, Wall, Wall, Wall]],
       start = (1, 1), exit = (3, 3), path = [(1, 3), (3, 1), (3, 3)]\<rparr>, 4, 2, 2, []) \<and>
   py_int (to_float (float_of_len 4 * (1 / 2))) = Some 2 \<and> (2::int) \<le> 2 \<and> (2::int) \<le> int 4"
proof -
  let ?g = "\<lparr>width = 5, height = 5, difficulty = Finite (1 / 2),
       maze = [[Wall, Wall, Wall, Wall, Wall],
               [Wall, PlayerStart, Open, Open, Wall],
               [Wall, Open, Wall, Open, Wall],
               [Wall, Open, Open, ExitDoor, Wall],
               [Wall, Wall, Wall, Wall, Wall]],
       start = (1, 1), exit = (3, 3), path = [(1, 3), (3, 1), (3, 3)]\<rparr>"
  let ?g' = "\<lparr>width = 5, height = 5, difficulty = Finite (1 / 2),
       maze = [[Wall, Wall, Wall, Wall, Wall],
               [Wall, PlayerStart, Open, Open, Wall],
               [Wall, Wall, Wall, Open, Wall],
               [Wall, Open, Wall, ExitDoor, Wall],
               [Wall, Wall, Wall, Wall, Wall]],
       start = (1, 1), exit = (3, 3), path = [(1, 3), (3, 1), (3, 3)]\<rparr>"
  have e: "add_safe_walls_locals ?g [1, 0, 2] = Some (?g', 4, 2, 2, [])" by code_simp
  have wf: "well_formed ?g" by (simp add: well_formed_def)
  have d: "difficulty ?g = Finite (1 / 2)" "0 \<le> (1 / 2 :: rat)" "(1 / 2 :: rat) \<le> 1"
    by simp_all
  from added_walls_bound [OF wf d, of "[1, 0, 2]"] e show ?thesis by simp
qed

text \<open>
  C7 as stated fails for the float nearest to one third, which is below one third: on the
  5 by 5 grid carved from the tape \<open>[2, 1]\<close> there are 3 candidates, the exact product is
  below 1 and its floor is 0, but the float product rounds to 1.0, so \<^verbatim>\<open>wall_count\<close> is 1
  and one wall is placed.
\<close>

theorem added_walls_exceed_exact_floor:
  "round53 (6004799503160661 / 18014398509481984) = 6004799503160661 / 18014398509481984 \<and>
   generate_base_maze (init 5 5 (Finite (6004799503160661 / 18014398509481984))) [2, 1] =
     Some (\<lparr>width = 5, height = 5, difficulty = Finite (6004799503160661 / 18014398509481984),
       maze = [[Wall, Wall, Wall, Wall, Wall],
               [Wall, PlayerStart, Open, Open, Wall],
               [Wall, Open, Wall, Wall, Wall],
               [Wall, Open, Open, ExitDoor, Wall],
               [Wall, Wall, Wall, Wall, Wall]],
       start = (1, 1), exit = (3, 3), path = [(3, 1), (3, 3), (1, 3)]\<rparr>, []) \<and>
   add_safe_walls_locals
     \<lparr>width = 5, height = 5, difficulty = Finite (6004799503160661 / 18014398509481984),
       maze = [[Wall, Wall, Wall, Wall, Wall],
               [Wall, PlayerStart, Open, Open, Wall],
               [Wall, Open, Wall, Wall, Wall],
               [Wall, Open, Open, ExitDoor, Wall],
               [Wall, Wall, Wall, Wall, Wall]],
       start = (1, 1), exit = (3, 3), path = [(3, 1), (3, 3), (1, 3)]\<rparr> []
     = Some (\<lparr>width = 5, height = 5, difficulty = Finite (6004799503160661 / 18014398509481984),
       maze = [[Wall, Wall, Wall, Wall, Wall],
               [Wall, PlayerStart, Wall, Open, Wall],
               [Wall, Open, Wall, Wall, Wall],
               [Wall, Open, Open, ExitDoor, Wall],
               [Wall, Wall, Wall, Wall, Wall]],
       start = (1, 1), exit = (3, 3), path = [(3, 1), (3, 3), (1, 3)]\<rparr>, 3, 1, 1, []) \<and>
   \<lfloor>3 * (6004799503160661 / 18014398509481984 :: rat)\<rfloor> = (0 :: int)"
  by code_simp

text \<open>
  C4. On a well-formed generator whose exit is reachable from its start, whenever
  \<^verbatim>\<open>_add_safe_walls\<close> returns, whatever the difficulty and the tape of the random source,
  the exit is still reachable from the start in the grid it leaves: a tentative wall that
  breaks the check is put back to the marker read before. It returns for every finite
  difficulty of magnitude at most \<open>2\<^sup>9\<^sup>6\<^sup>0\<close>, so for every difficulty in \<open>[0, 1]\<close>; on an
  infinite or undefined product \<^verbatim>\<open>int()\<close> raises before any cell is written.
\<close>

theorem add_safe_walls_keeps_exit_reachable:
  assumes "well_formed g" "reachable g (start g) (exit g)"
  shows "(\<forall>g' rs'. add_safe_walls g rs = Some (g', rs') \<longrightarrow>
            start g' = start g \<and> exit g' = exit g \<and> reachable g' (start g) (exit g)) \<and>
         (\<forall>q. difficulty g = Finite q \<and> \<bar>q\<bar> \<le> 2 ^ 960 \<longrightarrow>
            (\<exists>g' rs'. add_safe_walls g rs = Some (g', rs')))"
proof -
  have "start g' = start g \<and> exit g' = exit g \<and> reachable g' (start g) (exit g)"
    if run: "add_safe_walls g rs = Some (g', rs')" for g' rs'
  proof -
    from add_safe_walls_safe [OF assms(1) run] have
      wf: "well_formed g'" and frame: "g' = g\<lparr>maze := maze g'\<rparr>"
      and v: "validate_maze g = Some True \<longrightarrow> validate_maze g' = Some True"
      by simp_all
    have se: "start g' = start g" "exit g' = exit g"
      by (subst frame, simp)+
    from assms have "validate_maze g = Some True" by (simp add: validate_maze_correct)
    with v have "validate_maze g' = Some True" by simp
    with wf have "reachable g' (start g') (exit g')" by (simp add: validate_maze_correct)
    with se show ?thesis by simp
  qed
  moreover have "\<exists>g' rs'. add_safe_walls g rs = Some (g', rs')"
    if "difficulty g = Finite q \<and> \<bar>q\<bar> \<le> 2 ^ 960" for q
    using add_safe_walls_returns [OF assms(1), of q rs] that by blast
  ultimately show ?thesis by blast
qed

theorem add_safe_walls_keeps_exit_reachable_witness:
  "add_safe_walls
     \<lparr>width = 5, height = 5, difficulty = Finite 1,
       maze = [[Wall, Wall, Wall, Wall, Wall],
               [Wall, PlayerStart, Open, Open, Wall],
               [Wall, Open, Wall, Open, Wall],
               [Wall, Open, Open, ExitDoor, Wall],
               [Wall, Wall, Wall, Wall, Wall]],
       start = (1, 1), exit = (3, 3), path = [(1, 3), (3, 1), (3, 3)]\<rparr> [1, 0, 2]
     = Some (\<lparr>width = 5, height = 5, difficulty = Finite 1,
       maze = [[Wall, Wall, Wall, Wall, Wall],
               [Wall, PlayerStart, Open, Open, Wall],
               [Wall, Wall, Wall, Open, Wall],
               [Wall, Open, Wall, ExitDoor, Wall],
               [Wall, Wall, Wall, Wall, Wall]],
       start = (1, 1), exit = (3, 3), path = [(1, 3), (3, 1), (3, 3)]\<rparr>, []) \<and>
   reachable
     \<lparr>width = 5, height = 5, difficulty = Finite 1,
       maze = [[Wall, Wall, Wall, Wall, Wall],
               [Wall, PlayerStart, Open, Open, Wall],
               [Wall, Wall, Wall, Open, Wall],
               [Wall, Open, Wall, ExitDoor, Wall],
               [Wall, Wall, Wall, Wall, Wall]],
       start = (1, 1), exit = (3, 3), path = [(1, 3), (3, 1), (3, 3)]\<rparr> (1, 1) (3, 3)"
proof -
  let ?g = "\<lparr>width = 5, height = 5, difficulty = Finite 1,
       maze = [[Wall, Wall, Wall, Wall, Wall],
               [Wall, PlayerStart, Open, Open, Wall],
               [Wall, Open, Wall, Open, Wall],
               [Wall, Open, Open, ExitDoor, Wall],
               [Wall, Wall, Wall, Wall, Wall]],
       start = (1, 1), exit = (3, 3), path = [(1, 3), (3, 1), (3, 3)]\<rparr>"
  let ?g' = "\<lparr>width = 5, height = 5, difficulty = Finite 1,
       maze = [[Wall, Wall, Wall, Wall, Wall],
               [Wall, PlayerStart, Open, Open, Wall],
               [Wall, Wall, Wall, Open, Wall],
               [Wall, Open, Wall, ExitDoor, Wall],
               [Wall, Wall, Wall, Wall, Wall]],
       start = (1, 1), exit = (3, 3), path = [(1, 3), (3, 1), (3, 3)]\<rparr>"
  have wf: "well_formed ?g" by (simp add: well_formed_def)
  have "validate_maze ?g = Some True" by code_simp
  with wf have r: "reachable ?g (start ?g) (exit ?g)" by (simp add: validate_maze_correct)
  have e: "add_safe_walls ?g [1, 0, 2] = Some (?g', [])" by code_simp
  from add_safe_walls_keeps_exit_reachable [OF wf r, of "[1, 0, 2]"] e
  show ?thesis by simp
qed

section \<open>Claims about generate\<close>

text \<open>
  C8. For a width and a height of at least 3, a difficulty in \<open>[0, 1]\<close> and every tape
  of the random source, \<^verbatim>\<open>generate\<close> returns (it raises nothing, and every loop of
  the model is a total function), it makes at most 10 attempts, and the grid it returns
  has \<open>height\<close> rows of \<open>width\<close> cells.
\<close>

theorem generate_returns_grid:
  assumes "3 \<le> w" "3 \<le> h" "0 \<le> d" "d \<le> 1"
  shows "\<exists>g' k. generate_self (init w h (Finite d)) rs = Some (g', k) \<and> k \<le> 10 \<and>
           generate (init w h (Finite d)) rs = Some (maze g') \<and>
           length (maze g') = nat h \<and> (\<forall>row \<in> set (maze g'). length row = nat w)"
proof -
  have po: "params_ok (init w h (Finite d))" using assms(1,2) by (rule params_ok_init)
  have ud: "unit_difficulty (init w h (Finite d))" using assms(3,4) by (rule unit_difficulty_init)
  from generate_self_good [OF po ud, of rs] obtain g' k where
    r: "generate_self (init w h (Finite d)) rs = Some (g', k)" and g: "good g'"
    and sp: "same_params (init w h (Finite d)) g'" and k: "k \<le> max_attempts" by blast
  from sp have "height g' = h" "width g' = w" by (simp_all add: same_params_def init_def)
  with g have "length (maze g') = nat h" "\<forall>row \<in> set (maze g'). length row = nat w"
    by (simp_all add: good_def well_formed_def)
  moreover have "generate (init w h (Finite d)) rs = Some (maze g')" using r by (simp add: generate_def)
  moreover have "k \<le> 10" using k by (simp add: max_attempts_def)
  ultimately show ?thesis using r by blast
qed

theorem generate_returns_grid_witness:
  "generate (init 5 5 (Finite (1 / 2))) [2, 1] =
     Some [[Wall, Wall, Wall, Wall, Wall],
           [Wall, PlayerStart, Wall, Open, Wall],
           [Wall, Open, Wall, Wall, Wall],
           [Wall, Open, Open, ExitDoor, Wall],
           [Wall, Wall, Wall, Wall, Wall]] \<and>
   (\<exists>g' k. generate_self (init 5 5 (Finite (1 / 2))) [2, 1] = Some (g', k) \<and> k \<le> 10 \<and>
           generate (init 5 5 (Finite (1 / 2))) [2, 1] = Some (maze g') \<and>
           length (maze g') = nat 5 \<and> (\<forall>row \<in> set (maze g'). length row = nat 5))"
proof -
  have "generate (init 5 5 (Finite (1 / 2))) [2, 1] =
     Some [[Wall, Wall, Wall, Wall, Wall],
           [Wall, PlayerStart, Wall, Open, Wall],
           [Wall, Open, Wall, Wall, Wall],
           [Wall, Open, Open, ExitDoor, Wall],
           [Wall, Wall, Wall, Wall, Wall]]"
    by code_simp
  moreover have "\<exists>g' k. generate_self (init 5 5 (Finite (1 / 2))) [2, 1] = Some (g', k) \<and> k \<le> 10 \<and>
           generate (init 5 5 (Finite (1 / 2))) [2, 1] = Some (maze g') \<and>
           length (maze g') = nat 5 \<and> (\<forall>row \<in> set (maze g'). length row = nat 5)"
    using generate_returns_grid [of 5 5 "1 / 2" "[2, 1]"] by simp
  ultimately show ?thesis by blast
qed

text \<open>
  C10. For a width and a height of at least 3, a difficulty in \<open>[0, 1]\<close> and every tape
  of the random source, every cell of the returned grid in row 0, row \<open>height - 1\<close>,
  column 0 or column \<open>width - 1\<close> is a wall.
\<close>

theorem generate_border_is_wall:
  assumes "3 \<le> w" "3 \<le> h" "0 \<le> d" "d \<le> 1"
  shows "\<exists>m. generate (init w h (Finite d)) rs = Some m \<and>
           (\<forall>x y. 0 \<le> x \<and> x < h \<and> 0 \<le> y \<and> y < w \<and>
                  (x = 0 \<or> x = h - 1 \<or> y = 0 \<or> y = w - 1) \<longrightarrow>
                  cell m (x, y) = Some Wall)"
proof -
  have po: "params_ok (init w h (Finite d))" using assms(1,2) by (rule params_ok_init)
  have ud: "unit_difficulty (init w h (Finite d))" using assms(3,4) by (rule unit_difficulty_init)
  from generate_self_good [OF po ud, of rs] obtain g' k where
    r: "generate_self (init w h (Finite d)) rs = Some (g', k)" and g: "good g'"
    and sp: "same_params (init w h (Finite d)) g'" by blast
  from sp have hw: "height g' = h" "width g' = w" by (simp_all add: same_params_def init_def)
  from g have b: "\<forall>p \<in> in_grid g'. \<not> interior g' p \<longrightarrow> cell (maze g') p = Some Wall"
    by (simp add: good_def)
  have "cell (maze g') (x, y) = Some Wall"
    if "0 \<le> x \<and> x < h \<and> 0 \<le> y \<and> y < w \<and> (x = 0 \<or> x = h - 1 \<or> y = 0 \<or> y = w - 1)"
    for x y
  proof -
    from that have "(x, y) \<in> in_grid g'" by (simp add: in_grid_def hw)
    moreover from that have "\<not> interior g' (x, y)" by (auto simp: interior_def hw)
    ultimately show ?thesis using b by blast
  qed
  moreover have "generate (init w h (Finite d)) rs = Some (maze g')" using r by (simp add: generate_def)
  ultimately show ?thesis by blast
qed

theorem generate_border_is_wall_witness:
  "generate (init 7 6 (Finite (1 / 4))) [1, 0, 1] = Some
          [[Wall, Wall, Wall, Wall, Wall, Wall, Wall],
           [Wall, PlayerStart, Open, Open, Open, Open, Wall],
           [Wall, Wall, Wall, Open, Wall, Open, Wall],
           [Wall, Open, Wall, Open, Wall, Open, Wall],
           [Wall, Wall, Wall, Wall, Wall, ExitDoor, Wall],
           [Wall, Wall, Wall, Wall, Wall, Wall, Wall]] \<and>
   (\<exists>m. generate (init 7 6 (Finite (1 / 4))) [1, 0, 1] = Some m \<and>
           (\<forall>x y. 0 \<le> x \<and> x < 6 \<and> 0 \<le> y \<and> y < 7 \<and>
                  (x = 0 \<or> x = 6 - 1 \<or> y = 0 \<or> y = 7 - 1) \<longrightarrow>
                  cell m (x, y) = Some Wall))"
proof -
  have "generate (init 7 6 (Finite (1 / 4))) [1, 0, 1] = Some
          [[Wall, Wall, Wall, Wall, Wall, Wall, Wall],
           [Wall, PlayerStart, Open, Open, Open, Open, Wall],
           [Wall, Wall, Wall, Open, Wall, Open, Wall],
           [Wall, Open, Wall, Open, Wall, Open, Wall],
           [Wall, Wall, Wall, Wall, Wall, ExitDoor, Wall],
           [Wall, Wall, Wall, Wall, Wall, Wall, Wall]]"
    by code_simp
  moreover have "\<exists>m. generate (init 7 6 (Finite (1 / 4))) [1, 0, 1] = Some m \<and>
           (\<forall>x y. 0 \<le> x \<and> x < 6 \<and> 0 \<le> y \<and> y < 7 \<and>
                  (x = 0 \<or> x = 6 - 1 \<or> y = 0 \<or> y = 7 - 1) \<longrightarrow>
                  cell m (x, y) = Some Wall)"
    using generate_border_is_wall [of 7 6 "1 / 4" "[1, 0, 1]"] by simp
  ultimately show ?thesis by blast
qed

text \<open>
  C5 (amended). For a width and a height of at least 3 that are not both 3, a difficulty
  in \<open>[0, 1]\<close> and every tape of the random source, the returned grid has exactly one
  player cell, at (1, 1), and exactly one door cell, at \<open>(height - 2, width - 2)\<close>.
\<close>

theorem generate_one_start_one_exit:
  assumes "3 \<le> w" "3 \<le> h" "(w, h) \<noteq> (3, 3)" "0 \<le> d" "d \<le> 1"
  shows "\<exists>m. generate (init w h (Finite d)) rs = Some m \<and>
           count_marker m PlayerStart = 1 \<and> cell m (1, 1) = Some PlayerStart \<and>
           count_marker m ExitDoor = 1 \<and> cell m (h - 2, w - 2) = Some ExitDoor"
proof -
  have po: "params_ok (init w h (Finite d))" using assms(1,2) by (rule params_ok_init)
  have ud: "unit_difficulty (init w h (Finite d))" using assms(4,5) by (rule unit_difficulty_init)
  from generate_self_good [OF po ud, of rs] obtain g' k where
    r: "generate_self (init w h (Finite d)) rs = Some (g', k)" and g: "good g'"
    and sp: "same_params (init w h (Finite d)) g'" by blast
  from sp have hw: "height g' = h" "width g' = w" and e: "exit g' = (h - 2, w - 2)"
    by (simp_all add: same_params_def init_def)
  from g have wf: "well_formed g'"
    and cs: "\<forall>p \<in> in_grid g'.
        (cell (maze g') p = Some PlayerStart \<longleftrightarrow> p = (1, 1) \<and> exit g' \<noteq> (1, 1)) \<and>
        (cell (maze g') p = Some ExitDoor \<longleftrightarrow> p = exit g')"
    by (simp_all add: good_def)
  have ne: "exit g' \<noteq> (1, 1)" using assms(1,2,3) by (auto simp: e)
  have s: "(1, 1) \<in> in_grid g'" "(h - 2, w - 2) \<in> in_grid g'"
    using assms(1,2) by (simp_all add: in_grid_def hw)
  have u1: "\<forall>q \<in> in_grid g'. cell (maze g') q = Some PlayerStart \<longleftrightarrow> q = (1, 1)"
    using cs ne by simp
  have u2: "\<forall>q \<in> in_grid g'. cell (maze g') q = Some ExitDoor \<longleftrightarrow> q = (h - 2, w - 2)"
    using cs e by simp
  have "count_marker (maze g') PlayerStart = 1" using wf s(1) u1 by (rule count_marker_unique)
  moreover have "count_marker (maze g') ExitDoor = 1" using wf s(2) u2 by (rule count_marker_unique)
  moreover have "cell (maze g') (1, 1) = Some PlayerStart" using u1 s(1) by blast
  moreover have "cell (maze g') (h - 2, w - 2) = Some ExitDoor" using u2 s(2) by blast
  moreover have "generate (init w h (Finite d)) rs = Some (maze g')" using r by (simp add: generate_def)
  ultimately show ?thesis by blast
qed

theorem generate_one_start_one_exit_witness:
  "generate (init 9 9 (Finite (1 / 4))) [3, 1, 4, 1, 5, 9, 2, 6, 5, 3, 5, 8, 9, 7, 9] =
     Some
          [[Wall, Wall, Wall, Wall, Wall, Wall, Wall, Wall, Wall],
           [Wall, PlayerStart, Open, Open, Wall, Open, Wall, Open, Wall],
           [Wall, Wall, Wall, Open, Wall, Wall, Wall, Wall, Wall],
           [Wall, Open, Wall, Open, Open, Open, Open, Open, Wall],
           [Wall, Wall, Wall, Open, Wall, Wall, Wall, Open, Wall],
           [Wall, Open, Open, Open, Open, Open, Wall, Open, Wall],
           [Wall, Wall, Wall, Open, Wall, Open, Wall, Open, Wall],
           [Wall, Open, Open, Open, Wall, Open, Wall, ExitDoor, Wall],
           [Wall, Wall, Wall, Wall, Wall, Wall, Wall, Wall, Wall]] \<and>
   (\<exists>m. generate (init 9 9 (Finite (1 / 4))) [3, 1, 4, 1, 5, 9, 2, 6, 5, 3, 5, 8, 9, 7, 9] = Some m \<and>
           count_marker m PlayerStart = 1 \<and> cell m (1, 1) = Some PlayerStart \<and>
           count_marker m ExitDoor = 1 \<and> cell m (9 - 2, 9 - 2) = Some ExitDoor)"
proof -
  have "generate (init 9 9 (Finite (1 / 4))) [3, 1, 4, 1, 5, 9, 2, 6, 5, 3, 5, 8, 9, 7, 9] =
     Some
          [[Wall, Wall, Wall, Wall, Wall, Wall, Wall, Wall, Wall],
           [Wall, PlayerStart, Open, Open, Wall, Open, Wall, Open, Wall],
           [Wall, Wall, Wall, Open, Wall, Wall, Wall, Wall, Wall],
           [Wall, Open, Wall, Open, Open, Open, Open, Open, Wall],
           [Wall, Wall, Wall, Open, Wall, Wall, Wall, Open, Wall],
           [Wall, Open, Open, Open, Open, Open, Wall, Open, Wall],
           [Wall, Wall, Wall, Open, Wall, Open, Wall, Open, Wall],
           [Wall, Open, Open, Open, Wall, Open, Wall, ExitDoor, Wall],
           [Wall, Wall, Wall, Wall, Wall, Wall, Wall, Wall, Wall]]"
    by code_simp
  moreover have "\<exists>m. generate (init 9 9 (Finite (1 / 4))) [3, 1, 4, 1, 5, 9, 2, 6, 5, 3, 5, 8, 9, 7, 9] = Some m \<and>
           count_marker m PlayerStart = 1 \<and> cell m (1, 1) = Some PlayerStart \<and>
           count_marker m ExitDoor = 1 \<and> cell m (9 - 2, 9 - 2) = Some ExitDoor"
    using generate_one_start_one_exit [of 9 9 "1 / 4" "[3, 1, 4, 1, 5, 9, 2, 6, 5, 3, 5, 8, 9, 7, 9]"] by simp
  ultimately show ?thesis by blast
qed

text \<open>
  C5 as stated fails on a 3 by 3 grid: the start and the exit are the same cell, the door
  is written over the player, and the returned grid has no player cell.
\<close>

theorem generate_3x3_no_player:
  "generate (init 3 3 (Finite (1 / 2))) [] = Some [[Wall, Wall, Wall], [Wall, ExitDoor, Wall], [Wall, Wall, Wall]] \<and>
   count_marker [[Wall, Wall, Wall], [Wall, ExitDoor, Wall], [Wall, Wall, Wall]] PlayerStart = 0"
  by code_simp

text \<open>
  C3 (amended). When all attempts of \<^verbatim>\<open>generate\<close> fail, the grid returned has the door
  at the exit, the player at the start, an open cell at every other interior cell of odd
  row and odd column, and at every remaining cell the marker that the last attempt left
  there.
\<close>

theorem fallback_grid_cells:
  assumes "3 \<le> w" "3 \<le> h"
    and "attempts max_attempts 0 (init w h d) rs = Some (g1, rs1, False, k)"
  shows "\<exists>m. generate (init w h d) rs = Some m \<and>
           (\<forall>x y. 0 \<le> x \<and> x < h \<and> 0 \<le> y \<and> y < w \<longrightarrow>
              cell m (x, y) =
                (if (x, y) = (h - 2, w - 2) then Some ExitDoor
                 else if (x, y) = (1, 1) then Some PlayerStart
                 else if 0 < x \<and> x < h - 1 \<and> 0 < y \<and> y < w - 1 \<and>
                         x mod 2 = 1 \<and> y mod 2 = 1 then Some Open
                 else cell (maze g1) (x, y)))"
proof -
  have po: "params_ok (init w h d)" using assms(1,2) by (rule params_ok_init)
  have "max_attempts = 0 \<longrightarrow> good (init w h d)" by (simp add: max_attempts_def)
  from attempts_good [OF po this assms(3)]
  have g1: "good g1" and sp: "same_params (init w h d) g1" by simp_all
  from sp have hw: "height g1 = h" "width g1 = w" and se: "start g1 = (1, 1)"
    "exit g1 = (h - 2, w - 2)"
    by (simp_all add: same_params_def init_def)
  from g1 have wf: "well_formed g1" and po1: "params_ok g1" by (simp_all add: good_def)
  note si = params_ok_points [OF po1]
  have sg: "start g1 \<in> in_grid g1" "exit g1 \<in> in_grid g1"
    using si by (simp_all add: interior_in_grid)
  from generate_fallback_maze_spec [OF wf sg] obtain g2 where
    run: "generate_fallback_maze g1 = Some g2"
    and c: "\<forall>q \<in> in_grid g1. cell (maze g2) q =
              (if q = exit g1 then Some ExitDoor
               else if q = start g1 then Some PlayerStart
               else if interior g1 q \<and> lattice q then Some Open
               else cell (maze g1) q)"
    by blast
  have "generate (init w h d) rs = Some (maze g2)"
    using assms(3) run by (simp add: generate_def generate_self_def)
  moreover have "cell (maze g2) (x, y) =
                (if (x, y) = (h - 2, w - 2) then Some ExitDoor
                 else if (x, y) = (1, 1) then Some PlayerStart
                 else if 0 < x \<and> x < h - 1 \<and> 0 < y \<and> y < w - 1 \<and>
                         x mod 2 = 1 \<and> y mod 2 = 1 then Some Open
                 else cell (maze g1) (x, y))"
    if "0 \<le> x \<and> x < h \<and> 0 \<le> y \<and> y < w" for x y
  proof -
    from that have "(x, y) \<in> in_grid g1" by (simp add: in_grid_def hw)
    with c have "cell (maze g2) (x, y) =
              (if (x, y) = exit g1 then Some ExitDoor
               else if (x, y) = start g1 then Some PlayerStart
               else if interior g1 (x, y) \<and> lattice (x, y) then Some Open
               else cell (maze g1) (x, y))" by blast
    then show ?thesis by (simp add: se hw interior_def lattice_def)
  qed
  ultimately show ?thesis by blast
qed

theorem fallback_grid_cells_witness:
  "attempts max_attempts 0 (init 6 6 (Finite (1 / 2))) [] =
     Some (\<lparr>width = 6, height = 6, difficulty = Finite (1 / 2),
             maze = [[Wall, Wall, Wall, Wall, Wall, Wall],
                     [Wall, PlayerStart, Open, Open, Wall, Wall],
                     [Wall, Open, Wall, Wall, Wall, Wall],
                     [Wall, Open, Open, Open, Wall, Wall],
                     [Wall, Wall, Wall, Wall, ExitDoor, Wall],
                     [Wall, Wall, Wall, Wall, Wall, Wall]],
             start = (1, 1), exit = (4, 4),
             path = concat (replicate 10 [(3, 1), (1, 3), (3, 3)])\<rparr>, [], False, 10) \<and>
   (\<exists>m. generate (init 6 6 (Finite (1 / 2))) [] = Some m \<and>
      cell m (4, 4) = Some ExitDoor \<and> cell m (1, 1) = Some PlayerStart \<and>
      cell m (3, 3) = Some Open \<and> cell m (1, 2) = Some Open \<and> cell m (2, 3) = Some Wall)"
proof -
  let ?g1 = "\<lparr>width = 6, height = 6, difficulty = Finite (1 / 2),
             maze = [[Wall, Wall, Wall, Wall, Wall, Wall],
                     [Wall, PlayerStart, Open, Open, Wall, Wall],
                     [Wall, Open, Wall, Wall, Wall, Wall],
                     [Wall, Open, Open, Open, Wall, Wall],
                     [Wall, Wall, Wall, Wall, ExitDoor, Wall],
                     [Wall, Wall, Wall, Wall, Wall, Wall]],
             start = (1, 1), exit = (4, 4),
             path = concat (replicate 10 [(3, 1), (1, 3), (3, 3)])\<rparr>"
  have a: "attempts max_attempts 0 (init 6 6 (Finite (1 / 2))) [] = Some (?g1, [], False, 10)"
    by code_simp
  have c: "cell (maze ?g1) (1, 2) = Some Open" "cell (maze ?g1) (2, 3) = Some Wall"
    by code_simp+
  from fallback_grid_cells [OF _ _ a] obtain m where
    m: "generate (init 6 6 (Finite (1 / 2))) [] = Some m"
    and cm: "\<forall>x y. 0 \<le> x \<and> x < 6 \<and> 0 \<le> y \<and> y < 6 \<longrightarrow>
              cell m (x, y) =
                (if (x, y) = (6 - 2, 6 - 2) then Some ExitDoor
                 else if (x, y) = (1, 1) then Some PlayerStart
                 else if 0 < x \<and> x < 6 - 1 \<and> 0 < y \<and> y < 6 - 1 \<and>
                         x mod 2 = 1 \<and> y mod 2 = 1 then Some Open
                 else cell (maze ?g1) (x, y))"
    by auto
  from cm [rule_format, of 4 4] have "cell m (4, 4) = Some ExitDoor" by simp
  moreover from cm [rule_format, of 1 1] have "cell m (1, 1) = Some PlayerStart" by simp
  moreover from cm [rule_format, of 3 3] have "cell m (3, 3) = Some Open" by simp
  moreover from cm [rule_format, of 1 2] c have "cell m (1, 2) = Some Open" by simp
  moreover from cm [rule_format, of 2 3] c have "cell m (2, 3) = Some Wall" by simp
  ultimately show ?thesis using a m by blast
qed

text \<open>
  C3 as stated fails on a 6 by 6 grid: every attempt fails, and the grid returned keeps
  the corridor cells of the last carving open, such as (1, 2), which the comb pattern has
  as walls. Two tapes give two different grids, so the grid depends on what the attempts
  did.
\<close>

theorem fallback_grid_not_comb:
  "map_option (\<lambda>(g, rs, returned, k). (returned, k))
      (attempts max_attempts 0 (init 6 6 (Finite (1 / 2))) []) = Some (False, 10) \<and>
   generate (init 6 6 (Finite (1 / 2))) [] =
     Some [[Wall, Wall, Wall, Wall, Wall, Wall],
           [Wall, PlayerStart, Open, Open, Wall, Wall],
           [Wall, Open, Wall, Wall, Wall, Wall],
           [Wall, Open, Open, Open, Wall, Wall],
           [Wall, Wall, Wall, Wall, ExitDoor, Wall],
           [Wall, Wall, Wall, Wall, Wall, Wall]] \<and>
   map_option (\<lambda>(g, rs, returned, k). (returned, k))
      (attempts max_attempts 0 (init 6 6 (Finite (1 / 2))) (replicate 60 1)) = Some (False, 10) \<and>
   generate (init 6 6 (Finite (1 / 2))) (replicate 60 1) =
     Some [[Wall, Wall, Wall, Wall, Wall, Wall],
           [Wall, PlayerStart, Open, Open, Wall, Wall],
           [Wall, Wall, Wall, Open, Wall, Wall],
           [Wall, Open, Open, Open, Wall, Wall],
           [Wall, Wall, Wall, Wall, ExitDoor, Wall],
           [Wall, Wall, Wall, Wall, Wall, Wall]]"
  by code_simp

text \<open>
  C9 (amended). On a freshly constructed generator, whose path is empty, the carving of
  the first attempt returns, and afterwards the path holds exactly the open cells of odd
  row and odd column: the cells the walk opened as targets. The cells it opened between a
  target and its parent have an even coordinate and are not in the path.
\<close>

theorem first_carve_path:
  assumes "3 \<le> w" "3 \<le> h"
  shows "\<exists>g2 rs'. carve_maze (init w h d) rs = Some (g2, rs') \<and>
           set (path g2) =
             {(x, y). 0 \<le> x \<and> x < h \<and> 0 \<le> y \<and> y < w \<and>
                      cell (maze g2) (x, y) = Some Open \<and> x mod 2 = 1 \<and> y mod 2 = 1}"
proof -
  have a: "3 \<le> height (init w h d)" "3 \<le> width (init w h d)" "start (init w h d) = (1, 1)"
    using assms by (simp_all add: init_def)
  from carve_maze_carving [OF a, of rs] obtain g2 rs' where
    cm: "carve_maze (init w h d) rs = Some (g2, rs')"
    and inv: "carving (path (init w h d)) g2 []"
    and sp: "same_params (init w h d) g2" by blast
  from sp have hw: "height g2 = h" "width g2 = w" by (simp_all add: same_params_def init_def)
  from inv have "set (path g2) =
      {p \<in> in_grid g2. cell (maze g2) p = Some Open \<and> lattice p}"
    by (simp add: carving_def init_def)
  also have "\<dots> = {(x, y). 0 \<le> x \<and> x < h \<and> 0 \<le> y \<and> y < w \<and>
                      cell (maze g2) (x, y) = Some Open \<and> x mod 2 = 1 \<and> y mod 2 = 1}"
    by (auto simp: in_grid_def hw lattice_def)
  finally show ?thesis using cm by blast
qed

theorem first_carve_path_witness:
  "carve_maze (init 5 5 (Finite (1 / 2))) [2, 1] =
     Some (\<lparr>width = 5, height = 5, difficulty = Finite (1 / 2),
             maze = [[Wall, Wall, Wall, Wall, Wall],
                     [Wall, PlayerStart, Open, Open, Wall],
                     [Wall, Open, Wall, Wall, Wall],
                     [Wall, Open, Open, Open, Wall],
                     [Wall, Wall, Wall, Wall, Wall]],
             start = (1, 1), exit = (3, 3), path = [(3, 1), (3, 3), (1, 3)]\<rparr>, []) \<and>
   (\<exists>g2 rs'. carve_maze (init 5 5 (Finite (1 / 2))) [2, 1] = Some (g2, rs') \<and>
           set (path g2) =
             {(x, y). 0 \<le> x \<and> x < 5 \<and> 0 \<le> y \<and> y < 5 \<and>
                      cell (maze g2) (x, y) = Some Open \<and> x mod 2 = 1 \<and> y mod 2 = 1})"
proof -
  have "carve_maze (init 5 5 (Finite (1 / 2))) [2, 1] =
     Some (\<lparr>width = 5, height = 5, difficulty = Finite (1 / 2),
             maze = [[Wall, Wall, Wall, Wall, Wall],
                     [Wall, PlayerStart, Open, Open, Wall],
                     [Wall, Open, Wall, Wall, Wall],
                     [Wall, Open, Open, Open, Wall],
                     [Wall, Wall, Wall, Wall, Wall]],
             start = (1, 1), exit = (3, 3), path = [(3, 1), (3, 3), (1, 3)]\<rparr>, [])"
    by code_simp
  moreover from first_carve_path [of 5 5 "Finite (1 / 2)" "[2, 1]"]
  have "\<exists>g2 rs'. carve_maze (init 5 5 (Finite (1 / 2))) [2, 1] = Some (g2, rs') \<and>
           set (path g2) =
             {(x, y). 0 \<le> x \<and> x < 5 \<and> 0 \<le> y \<and> y < 5 \<and>
                      cell (maze g2) (x, y) = Some Open \<and> x mod 2 = 1 \<and> y mod 2 = 1}"
    by simp
  ultimately show ?thesis by blast
qed

text \<open>
  C9 as stated fails on a 6 by 6 grid: the first attempt fails the check and leaves three
  cells in the path, so the second attempt starts with a non-empty path and ends with
  each cell in it twice; and the cell (2, 1), opened by the first walk, is not in the
  path.
\<close>

theorem path_not_reset_and_midpoints_missing:
  "generate_base_maze (init 6 6 (Finite (1 / 2))) [] =
     Some (\<lparr>width = 6, height = 6, difficulty = Finite (1 / 2),
             maze = [[Wall, Wall, Wall, Wall, Wall, Wall],
                     [Wall, PlayerStart, Open, Open, Wall, Wall],
                     [Wall, Open, Wall, Wall, Wall, Wall],
                     [Wall, Open, Open, Open, Wall, Wall],
                     [Wall, Wall, Wall, Wall, ExitDoor, Wall],
                     [Wall, Wall, Wall, Wall, Wall, Wall]],
             start = (1, 1), exit = (4, 4), path = [(3, 1), (1, 3), (3, 3)]\<rparr>, []) \<and>
   validate_maze
     \<lparr>width = 6, height = 6, difficulty = Finite (1 / 2),
       maze = [[Wall, Wall, Wall, Wall, Wall, Wall],
               [Wall, PlayerStart, Open, Open, Wall, Wall],
               [Wall, Open, Wall, Wall, Wall, Wall],
               [Wall, Open, Open, Open, Wall, Wall],
               [Wall, Wall, Wall, Wall, ExitDoor, Wall],
               [Wall, Wall, Wall, Wall, Wall, Wall]],
       start = (1, 1), exit = (4, 4), path = [(3, 1), (1, 3), (3, 3)]\<rparr> = Some False \<and>
   carve_maze
     \<lparr>width = 6, height = 6, difficulty = Finite (1 / 2),
       maze = [[Wall, Wall, Wall, Wall, Wall, Wall],
               [Wall, PlayerStart, Open, Open, Wall, Wall],
               [Wall, Open, Wall, Wall, Wall, Wall],
               [Wall, Open, Open, Open, Wall, Wall],
               [Wall, Wall, Wall, Wall, ExitDoor, Wall],
               [Wall, Wall, Wall, Wall, Wall, Wall]],
       start = (1, 1), exit = (4, 4), path = [(3, 1), (1, 3), (3, 3)]\<rparr> [] =
     Some (\<lparr>width = 6, height = 6, difficulty = Finite (1 / 2),
             maze = [[Wall, Wall, Wall, Wall, Wall, Wall],
                     [Wall, PlayerStart, Open, Open, Wall, Wall],
                     [Wall, Open, Wall, Wall, Wall, Wall],
                     [Wall, Open, Open, Open, Wall, Wall],
                     [Wall, Wall, Wall, Wall, Wall, Wall],
                     [Wall, Wall, Wall, Wall, Wall, Wall]],
             start = (1, 1), exit = (4, 4),
             path = [(3, 1), (1, 3), (3, 3), (3, 1), (1, 3), (3, 3)]\<rparr>, []) \<and>
   cell [[Wall, Wall, Wall, Wall, Wall, Wall],
         [Wall, PlayerStart, Open, Open, Wall, Wall],
         [Wall, Open, Wall, Wall, Wall, Wall],
         [Wall, Open, Open, Open, Wall, Wall],
         [Wall, Wall, Wall, Wall, ExitDoor, Wall],
         [Wall, Wall, Wall, Wall, Wall, Wall]] (2, 1) = Some Open \<and>
   (2, 1) \<notin> set [(3, 1), (1, 3), (3, 3) :: coord]"
  by code_simp

text \<open>
  C1 fails on a 10 by 10 grid: the exit (8, 8) is not on the lattice that the carving
  opens, all ten attempts fail, the fallback opens nothing next to the exit, and the grid
  returned does not pass the reachability check.
\<close>

theorem generate_10_by_10_exit_cut_off:
  "generate (init 10 10 (Finite (1 / 2))) [] =
     Some [[Wall, Wall, Wall, Wall, Wall, Wall, Wall, Wall, Wall, Wall],
           [Wall, PlayerStart, Open, Open, Open, Open, Open, Open, Wall, Wall],
           [Wall, Open, Wall, Wall, Wall, Wall, Wall, Wall, Wall, Wall],
           [Wall, Open, Open, Open, Open, Open, Open, Open, Wall, Wall],
           [Wall, Open, Wall, Wall, Wall, Wall, Wall, Wall, Wall, Wall],
           [Wall, Open, Open, Open, Open, Open, Open, Open, Wall, Wall],
           [Wall, Open, Wall, Wall, Wall, Wall, Wall, Wall, Wall, Wall],
           [Wall, Open, Open, Open, Open, Open, Open, Open, Wall, Wall],
           [Wall, Wall, Wall, Wall, Wall, Wall, Wall, Wall, ExitDoor, Wall],
           [Wall, Wall, Wall, Wall, Wall, Wall, Wall, Wall, Wall, Wall]] \<and>
   map_option (\<lambda>(g, k). validate_maze g) (generate_self (init 10 10 (Finite (1 / 2))) []) =
     Some (Some False)"
  by code_simp

text \<open>
  C2 fails: on a 4 by 4 grid all attempts fail and the fallback grid, which is returned,
  does not pass the reachability check; run on a freshly constructed 5 by 5 generator,
  the fallback leaves four open cells with walls between them.
\<close>

theorem fallback_4_by_4_exit_cut_off:
  "map_option (\<lambda>(g, rs, returned, k). (returned, k))
      (attempts max_attempts 0 (init 4 4 (Finite (1 / 2))) []) = Some (False, 10) \<and>
   generate (init 4 4 (Finite (1 / 2))) [] =
     Some [[Wall, Wall, Wall, Wall],
           [Wall, PlayerStart, Wall, Wall],
           [Wall, Wall, ExitDoor, Wall],
           [Wall, Wall, Wall, Wall]] \<and>
   map_option (\<lambda>(g, k). validate_maze g) (generate_self (init 4 4 (Finite (1 / 2))) []) =
     Some (Some False) \<and>
   map_option maze (generate_fallback_maze (init 5 5 (Finite (1 / 2)))) =
     Some [[Wall, Wall, Wall, Wall, Wall],
           [Wall, PlayerStart, Wall, Open, Wall],
           [Wall, Wall, Wall, Wall, Wall],
           [Wall, Open, Wall, ExitDoor, Wall],
           [Wall, Wall, Wall, Wall, Wall]] \<and>
   map_option validate_maze (generate_fallback_maze (init 5 5 (Finite (1 / 2)))) = Some (Some False)"
  by code_simp

end
